theory Spec2Isabelle
  imports Complex_Main "HOL-Library.AList"
begin

section \<open>Data model\<close>

text \<open>
  The matching engine of \<^verbatim>\<open>src/excel_merger/matching.py\<close>, embedded function by function.

  A Python \<open>str\<close> that the engine normalises is the list of its Unicode code points. Column
  names are only compared and prefixed, so they stay byte strings.

  A cell of a data frame is either missing (\<open>None\<close>, \<open>NaN\<close>, \<open>NaT\<close>, \<open>pd.NA\<close>: everything
  \<open>pd.isna\<close> accepts) or a value. The engine looks at a value only through \<open>str()\<close>, so a
  value that is not a string is represented by the text \<open>str()\<close> returns for it.
\<close>

type_synonym ustring = "nat list"

text \<open>A text given by its ASCII characters, as the literals of the source are.\<close>

definition lit :: "string \<Rightarrow> ustring" where
  "lit s = map of_char s"

datatype scalar = Null | Str ustring | Other ustring

datatype py_error = KeyError | IndexError | ZeroDivisionError | AttributeError

text \<open>
  A data frame has a fixed list of column names and, for every row, the cell under each
  column name. Scores are Python floats; the model computes with them as reals.
  A value stored in an output row is a cell or a float (the rounded score).
\<close>

record dataframe =
  df_columns :: "string list"
  df_rows :: "(string \<Rightarrow> scalar) list"

datatype out_value = Cell scalar | Score real

type_synonym record_dict = "(string \<times> scalar) list"
type_synonym row_dict = "(string \<times> out_value) list"

text \<open>
  What \<open>combine_columns\<close> returns: a \<open>Series\<close> of texts, one per row, or (for a frame without
  rows, see there) a \<open>DataFrame\<close>, which has no \<open>tolist\<close>.
\<close>

datatype combined = Series "ustring list" | Frame

text \<open>
  What the module takes from outside: the Unicode tables behind \<open>str.strip\<close>, \<open>str.split\<close>
  and the pattern \<open>\s\<close> (one whitespace predicate on code points serves all three) and
  behind \<open>str.lower\<close> (a function of the whole string: a capital sigma is lower-cased by
  its context); the optional \<open>rapidfuzz.fuzz\<close> module (its \<open>ratio\<close>, on a 0..100 scale;
  \<open>None\<close> when the import failed); difflib's \<open>SequenceMatcher(None, a, b).ratio()\<close>; and the
  order in which CPython iterates over a set of integers.
\<close>

record env =
  str_isspace :: "nat \<Rightarrow> bool"
  str_lower :: "ustring \<Rightarrow> ustring"
  rapidfuzz_fuzz :: "(ustring \<Rightarrow> ustring \<Rightarrow> real) option"
  difflib_ratio :: "ustring \<Rightarrow> ustring \<Rightarrow> real"
  set_iter :: "nat set \<Rightarrow> nat list"

record MatchResult =
  result_df :: "row_dict list"
  best_scores :: "real list"
  best_positions :: "nat option list"
  left_text :: combined
  right_text :: combined
  similarity_enabled :: bool
  similarity_engine :: string
  exact_match_count :: nat
  candidate_comparisons :: nat
  left_match_columns_used :: "string list"
  right_match_columns_used :: "string list"

text \<open>The variables the loop of \<open>run_matching\<close> updates, and the calls made to the
  progress callback so far.\<close>

record loop_state =
  acc_rows :: "row_dict list"
  acc_best_scores :: "real list"
  acc_best_positions :: "nat option list"
  acc_exact_match_count :: nat
  acc_candidate_comparisons :: nat
  acc_progress_calls :: "(nat \<times> nat) list"

section \<open>Text normalisation\<close>

text \<open>\<open>text.strip()\<close>: without the leading and the trailing whitespace.\<close>

definition py_strip :: "env \<Rightarrow> ustring \<Rightarrow> ustring" where
  "py_strip e s = rev (dropWhile (str_isspace e) (rev (dropWhile (str_isspace e) s)))"

text \<open>\<open>re.sub(r"\s+", " ", text)\<close>: every maximal run of whitespace becomes one space
  (code point 32).\<close>

function re_sub_ws :: "env \<Rightarrow> ustring \<Rightarrow> ustring" where
  "re_sub_ws e [] = []"
| "re_sub_ws e (c # cs) =
     (if str_isspace e c then 32 # re_sub_ws e (dropWhile (str_isspace e) cs)
      else c # re_sub_ws e cs)"
  by pat_completeness auto
termination
  by (relation "measure (\<lambda>(e, s). length s)")
    (simp_all add: le_imp_less_Suc length_dropWhile_le)

text \<open>\<open>text.split()\<close>: the maximal runs of non-whitespace, in order.\<close>

function py_split :: "env \<Rightarrow> ustring \<Rightarrow> ustring list" where
  "py_split e s =
     (case dropWhile (str_isspace e) s of
        [] \<Rightarrow> []
      | c # cs \<Rightarrow> (c # takeWhile (\<lambda>x. \<not> str_isspace e x) cs)
                 # py_split e (dropWhile (\<lambda>x. \<not> str_isspace e x) cs))"
  by pat_completeness auto
termination
proof (relation "measure (\<lambda>(e, s). length s)")
  show "wf (measure (\<lambda>(e :: env, s ::ustring). length s))" by simp
next
  fix e :: env and s :: ustring and c cs
  assume eq: "dropWhile (str_isspace e) s = c # cs"
  have "length (dropWhile (\<lambda>x. \<not> str_isspace e x) cs) \<le> length cs"
    by (rule length_dropWhile_le)
  also have "length cs < length (dropWhile (str_isspace e) s)"
    by (simp add: eq)
  also have "\<dots> \<le> length s"
    by (rule length_dropWhile_le)
  finally show "((e, dropWhile (\<lambda>x. \<not> str_isspace e x) cs), (e, s))
      \<in> measure (\<lambda>(e, s). length s)"
    by simp
qed

text \<open>\<open>normalize_text\<close>: the empty text for a missing value, else
  \<open>re.sub(r"\s+", " ", str(value).strip().lower())\<close>.\<close>

fun normalize_text :: "env \<Rightarrow> scalar \<Rightarrow> ustring" where
  "normalize_text e Null = []"
| "normalize_text e (Str s) = re_sub_ws e (str_lower e (py_strip e s))"
| "normalize_text e (Other s) = re_sub_ws e (str_lower e (py_strip e s))"

declare py_split.simps [simp del]

section \<open>Errors and loops\<close>

definition bind_err :: "py_error + 'a \<Rightarrow> ('a \<Rightarrow> py_error + 'b) \<Rightarrow> py_error + 'b" where
  "bind_err m f = (case m of Inl err \<Rightarrow> Inl err | Inr x \<Rightarrow> f x)"

text \<open>\<open>xs[i]\<close> with \<open>i\<close> a non-negative index: IndexError out of range.\<close>

definition getitem :: "'a list \<Rightarrow> nat \<Rightarrow> py_error + 'a" where
  "getitem xs i = (if i < length xs then Inr (xs ! i) else Inl IndexError)"

text \<open>A \<open>for\<close> loop whose body may raise: the first error ends it.\<close>

fun for_each :: "('s \<Rightarrow> 'a \<Rightarrow> py_error + 's) \<Rightarrow> 'a list \<Rightarrow> 's \<Rightarrow> py_error + 's" where
  "for_each body [] st = Inr st"
| "for_each body (x # xs) st = bind_err (body st x) (for_each body xs)"

section \<open>Data-frame operations\<close>

definition has_columns :: "dataframe \<Rightarrow> string list \<Rightarrow> bool" where
  "has_columns df cols = list_all (\<lambda>c. c \<in> set (df_columns df)) cols"

text \<open>One cell through \<open>.fillna("").astype(str)\<close>.\<close>

fun fillna_astype_str :: "scalar \<Rightarrow> ustring" where
  "fillna_astype_str Null = []"
| "fillna_astype_str (Str s) = s"
| "fillna_astype_str (Other s) = s"

fun py_join :: "ustring \<Rightarrow> ustring list \<Rightarrow> ustring" where
  "py_join sep [] = []"
| "py_join sep [x] = x"
| "py_join sep (x # y # ys) = x @ sep @ py_join sep (y # ys)"

text \<open>
  \<open>combine_columns\<close>. \<open>df[selected_cols]\<close> raises KeyError for a name that is not a column.
  On a frame without rows, \<open>.agg(" ".join, axis=1)\<close> gives back the frame instead of a
  \<open>Series\<close> (pandas cannot tell from no rows that the function reduces), and \<open>.map\<close>,
  element-wise on a frame, keeps it a frame; the branch for an empty selection returns a
  \<open>Series\<close> for every frame.
\<close>

definition combine_columns :: "env \<Rightarrow> dataframe \<Rightarrow> string list \<Rightarrow> py_error + combined" where
  "combine_columns e df selected_cols =
     (if selected_cols = [] then Inr (Series (replicate (length (df_rows df)) []))
      else if \<not> has_columns df selected_cols then Inl KeyError
      else if df_rows df = [] then Inr Frame
      else Inr (Series (map (\<lambda>r. normalize_text e
                  (Str (py_join [32] (map (\<lambda>c. fillna_astype_str (r c)) selected_cols))))
                (df_rows df))))"

text \<open>\<open>.tolist()\<close>: a \<open>DataFrame\<close> has no such attribute.\<close>

fun tolist :: "combined \<Rightarrow> py_error + ustring list" where
  "tolist (Series xs) = Inr xs"
| "tolist Frame = Inl AttributeError"

text \<open>
  \<open>df[cols].to_dict("records")\<close>: one dictionary per row, keyed by the selected columns in
  order (a repeated name keeps its first place). pandas builds the records by zipping
  the selected column arrays, so a selection of no columns gives no record at all.
\<close>

definition to_dict_records :: "dataframe \<Rightarrow> string list \<Rightarrow> py_error + record_dict list" where
  "to_dict_records df cols =
     (if \<not> has_columns df cols then Inl KeyError
      else if cols = [] then Inr []
      else Inr (map (\<lambda>r. fold (\<lambda>c d. AList.update c (r c) d) cols []) (df_rows df)))"

section \<open>Blocking index and scorer\<close>

text \<open>\<open>defaultdict(set)\<close> read with \<open>.get(token, set())\<close>: a function to sets, empty by default.\<close>

definition build_token_index :: "env \<Rightarrow> ustring list \<Rightarrow> ustring \<Rightarrow> nat set" where
  "build_token_index e texts =
     fold (\<lambda>(pos, t) token_index.
             fold (\<lambda>token idx. idx(token := insert pos (idx token))) (py_split e t) token_index)
          (enumerate 0 texts) (\<lambda>_. {})"

text \<open>\<open>defaultdict(list)\<close> tested with \<open>in\<close>: a partial map. A text is a key once a
  position has been appended under it, and \<open>if text:\<close> skips the empty text.\<close>

definition build_exact_index :: "ustring list \<Rightarrow> ustring \<rightharpoonup> nat list" where
  "build_exact_index texts =
     fold (\<lambda>(pos, t) exact_index.
             if t \<noteq> [] then
               exact_index(t \<mapsto> (case exact_index t of None \<Rightarrow> [] | Some ps \<Rightarrow> ps) @ [pos])
             else exact_index)
          (enumerate 0 texts) Map.empty"

definition similarity_ratio :: "env \<Rightarrow> ustring \<Rightarrow> ustring \<Rightarrow> bool \<Rightarrow> real" where
  "similarity_ratio e ltext rtext use_rapidfuzz =
     (case rapidfuzz_fuzz e of
        Some ratio \<Rightarrow> if use_rapidfuzz then ratio ltext rtext / 100 else difflib_ratio e ltext rtext
      | None \<Rightarrow> difflib_ratio e ltext rtext)"

text \<open>\<open>round(x, ndigits)\<close> on a float: to the nearest multiple of \<open>10^-ndigits\<close>, a tie to
  the even one.\<close>

definition round_half_even :: "real \<Rightarrow> int" where
  "round_half_even x =
     (let f = \<lfloor>x\<rfloor>; d = x - of_int f
      in if d < 1 / 2 then f else if 1 / 2 < d then f + 1 else if even f then f else f + 1)"

definition py_round :: "real \<Rightarrow> nat \<Rightarrow> real" where
  "py_round x ndigits = of_int (round_half_even (x * 10 ^ ndigits)) / 10 ^ ndigits"

section \<open>The matching engine\<close>

text \<open>What stays fixed while \<open>run_matching\<close> loops over the left rows.\<close>

record loop_ctx =
  c_env :: env
  c_use_rapidfuzz :: bool
  c_exact_index :: "ustring \<rightharpoonup> nat list"
  c_token_index :: "ustring \<Rightarrow> nat set"
  c_right_text_values :: "ustring list"
  c_left_output_records :: "record_dict list"
  c_right_output_records :: "record_dict list"
  c_right_output_cols :: "string list"
  c_threshold :: real
  c_include_unmatched :: bool
  c_progress_callback :: bool
  c_progress_update_every :: int
  c_total_rows :: nat

text \<open>Lines 171-176: score every candidate, keep a strictly better one.\<close>

fun scan_candidates ::
  "env \<Rightarrow> bool \<Rightarrow> ustring \<Rightarrow> ustring list \<Rightarrow> nat list \<Rightarrow> real \<times> nat option \<times> nat
     \<Rightarrow> py_error + (real \<times> nat option \<times> nat)" where
  "scan_candidates e use_rf ltext rtexts [] acc = Inr acc"
| "scan_candidates e use_rf ltext rtexts (right_pos # ps) (best_score, best_right_pos, comparisons) =
     bind_err (getitem rtexts right_pos) (\<lambda>rtext.
       let score = similarity_ratio e ltext rtext use_rf
       in scan_candidates e use_rf ltext rtexts ps
            (if score > best_score then (score, Some right_pos, comparisons + 1)
             else (best_score, best_right_pos, comparisons + 1)))"

text \<open>Lines 165-169: the union of the posting sets of the tokens of a left text.\<close>

definition candidate_positions :: "env \<Rightarrow> (ustring \<Rightarrow> nat set) \<Rightarrow> ustring \<Rightarrow> nat set" where
  "candidate_positions e token_index ltext =
     (\<Union>token\<in>set (py_split e ltext). token_index token)"

text \<open>Lines 157-176: the decision for one left text, from the two counters before the row
  to the score, the position and the two counters after it.\<close>

definition match_row ::
  "loop_ctx \<Rightarrow> ustring \<Rightarrow> nat \<Rightarrow> nat \<Rightarrow> py_error + (real \<times> nat option \<times> nat \<times> nat)" where
  "match_row cx ltext exact_count comparisons =
     (case c_exact_index cx ltext of
        Some ps \<Rightarrow>
          bind_err (getitem ps 0) (\<lambda>p. Inr (1, Some p, exact_count + 1, comparisons))
      | None \<Rightarrow>
          (if set (py_split (c_env cx) ltext) \<noteq> {} then
             bind_err
               (scan_candidates (c_env cx) (c_use_rapidfuzz cx) ltext (c_right_text_values cx)
                  (set_iter (c_env cx)
                     (candidate_positions (c_env cx) (c_token_index cx) ltext))
                  (0, None, comparisons))
               (\<lambda>(best_score, best_right_pos, comparisons').
                  Inr (best_score, best_right_pos, exact_count, comparisons'))
           else Inr (0, None, exact_count, comparisons)))"

text \<open>The loops that copy a record into the output row, and the one that fills the
  right columns with \<open>pd.NA\<close>.\<close>

definition add_prefixed :: "string \<Rightarrow> record_dict \<Rightarrow> row_dict \<Rightarrow> row_dict" where
  "add_prefixed prefix rec row =
     fold (\<lambda>(col, v) r. AList.update (prefix @ col) (Cell v) r) rec row"

definition add_missing :: "string \<Rightarrow> string list \<Rightarrow> row_dict \<Rightarrow> row_dict" where
  "add_missing prefix cols row =
     fold (\<lambda>col r. AList.update (prefix @ col) (Cell Null) r) cols row"

definition is_matched :: "real \<Rightarrow> real \<Rightarrow> nat option \<Rightarrow> bool" where
  "is_matched thr best_score best_right_pos = (best_right_pos \<noteq> None \<and> best_score \<ge> thr)"

text \<open>Lines 181-196: append the output row of a left row, or drop it.\<close>

definition emit_row ::
  "loop_ctx \<Rightarrow> nat \<Rightarrow> real \<Rightarrow> nat option \<Rightarrow> row_dict list \<Rightarrow> py_error + row_dict list" where
  "emit_row cx left_pos best_score best_right_pos rows =
     (let matched = is_matched (c_threshold cx) best_score best_right_pos
      in if matched \<or> c_include_unmatched cx then
           bind_err (getitem (c_left_output_records cx) left_pos) (\<lambda>lrec.
           bind_err
             (case best_right_pos of
                Some p \<Rightarrow>
                  if matched then
                    bind_err (getitem (c_right_output_records cx) p) (\<lambda>rrec.
                      Inr (add_prefixed ''Right_'' rrec (add_prefixed ''Left_'' lrec [])))
                  else Inr (add_missing ''Right_'' (c_right_output_cols cx)
                              (add_prefixed ''Left_'' lrec []))
              | None \<Rightarrow> Inr (add_missing ''Right_'' (c_right_output_cols cx)
                              (add_prefixed ''Left_'' lrec [])))
             (\<lambda>row.
                Inr (rows @
                  [AList.update ''Match_Status''
                     (Cell (Str (lit (if matched then ''Matched'' else ''No match''))))
                     (AList.update ''Similarity_Score'' (Score (py_round best_score 4)) row)])))
         else Inr rows)"

text \<open>Lines 118-121 and 198-201. The remainder is taken before the \<open>or\<close>, so an interval
  of zero raises on the first row.\<close>

definition progress_tick :: "loop_ctx \<Rightarrow> nat \<Rightarrow> (nat \<times> nat) list \<Rightarrow> py_error + (nat \<times> nat) list" where
  "progress_tick cx left_pos calls =
     (if c_progress_callback cx then
        (let done_rows = left_pos + 1
         in if c_progress_update_every cx = 0 then Inl ZeroDivisionError
            else if int done_rows mod c_progress_update_every cx = 0 \<or> done_rows = c_total_rows cx
              then Inr (calls @ [(done_rows, c_total_rows cx)])
            else Inr calls)
      else Inr calls)"

text \<open>Lines 156-201: the body of the loop of the similarity mode.\<close>

definition match_step :: "loop_ctx \<Rightarrow> loop_state \<Rightarrow> nat \<times> ustring \<Rightarrow> py_error + loop_state" where
  "match_step cx st = (\<lambda>(left_pos, ltext).
     bind_err (match_row cx ltext (acc_exact_match_count st) (acc_candidate_comparisons st))
       (\<lambda>(best_score, best_right_pos, exact_count, comparisons).
     bind_err (emit_row cx left_pos best_score best_right_pos (acc_rows st)) (\<lambda>rows.
     bind_err (progress_tick cx left_pos (acc_progress_calls st)) (\<lambda>calls.
       Inr \<lparr>acc_rows = rows,
            acc_best_scores = acc_best_scores st @ [best_score],
            acc_best_positions = acc_best_positions st @ [best_right_pos],
            acc_exact_match_count = exact_count,
            acc_candidate_comparisons = comparisons,
            acc_progress_calls = calls\<rparr>))))"

text \<open>Lines 102-121: the body of the loop of the positional merge.\<close>

definition merge_step :: "loop_ctx \<Rightarrow> loop_state \<Rightarrow> nat \<Rightarrow> py_error + loop_state" where
  "merge_step cx st left_pos =
     bind_err (getitem (c_left_output_records cx) left_pos) (\<lambda>lrec.
       let has_right_row = left_pos < length (c_right_output_records cx)
       in bind_err
            (if has_right_row then
               bind_err (getitem (c_right_output_records cx) left_pos) (\<lambda>rrec.
                 Inr (add_prefixed ''Right_'' rrec (add_prefixed ''Left_'' lrec [])))
             else Inr (add_missing ''Right_'' (c_right_output_cols cx)
                         (add_prefixed ''Left_'' lrec [])))
            (\<lambda>row.
     bind_err (progress_tick cx left_pos (acc_progress_calls st)) (\<lambda>calls.
       Inr (st\<lparr>acc_rows := (if has_right_row \<or> c_include_unmatched cx
                              then acc_rows st @ [row] else acc_rows st),
               acc_progress_calls := calls\<rparr>))))"

definition init_state :: "bool \<Rightarrow> nat \<Rightarrow> loop_state" where
  "init_state callback total_rows =
     \<lparr>acc_rows = [], acc_best_scores = [], acc_best_positions = [],
      acc_exact_match_count = 0, acc_candidate_comparisons = 0,
      acc_progress_calls = (if callback then [(0, total_rows)] else [])\<rparr>"

text \<open>Lines 137-154 (and 96-100): what is computed before the loop.\<close>

definition loop_context ::
  "env \<Rightarrow> ustring list \<Rightarrow> record_dict list \<Rightarrow> record_dict list \<Rightarrow> string list
     \<Rightarrow> real \<Rightarrow> bool \<Rightarrow> bool \<Rightarrow> bool \<Rightarrow> int option \<Rightarrow> nat \<Rightarrow> loop_ctx" where
  "loop_context e rtexts lrecs rrecs right_output_cols thr incl prefer_rapidfuzz callback
       update_every total_rows =
     \<lparr>c_env = e,
      c_use_rapidfuzz = (prefer_rapidfuzz \<and> rapidfuzz_fuzz e \<noteq> None),
      c_exact_index = build_exact_index rtexts,
      c_token_index = build_token_index e rtexts,
      c_right_text_values = rtexts,
      c_left_output_records = lrecs,
      c_right_output_records = rrecs,
      c_right_output_cols = right_output_cols,
      c_threshold = thr,
      c_include_unmatched = incl,
      c_progress_callback = callback,
      c_progress_update_every =
        (case update_every of None \<Rightarrow> max (int total_rows div 200) 1 | Some n \<Rightarrow> n),
      c_total_rows = total_rows\<rparr>"

text \<open>
  \<open>run_matching\<close>. The progress callback is modelled by its presence; the calls made to
  it are returned beside the result. \<open>rapidfuzz_fuzz is not None\<close> is read from the
  environment. The positional merge builds no index: its context carries the indexes of
  no text.
\<close>

definition run_matching ::
  "env \<Rightarrow> dataframe \<Rightarrow> dataframe \<Rightarrow> string list \<Rightarrow> string list \<Rightarrow> string list \<Rightarrow> string list
     \<Rightarrow> real \<Rightarrow> bool \<Rightarrow> bool \<Rightarrow> bool \<Rightarrow> int option
     \<Rightarrow> py_error + (MatchResult \<times> (nat \<times> nat) list)" where
  "run_matching e left_df right_df left_output_cols right_output_cols
       left_match_cols right_match_cols thr incl prefer_rapidfuzz callback update_every =
     (let enabled = (left_match_cols \<noteq> [] \<and> right_match_cols \<noteq> []);
          effective_left_match_cols = (if enabled then left_match_cols else []);
          effective_right_match_cols = (if enabled then right_match_cols else [])
      in
      bind_err (combine_columns e left_df effective_left_match_cols) (\<lambda>left_series.
      bind_err (combine_columns e right_df effective_right_match_cols) (\<lambda>right_series.
      bind_err (to_dict_records left_df left_output_cols) (\<lambda>lrecs.
      bind_err (to_dict_records right_df right_output_cols) (\<lambda>rrecs.
        if \<not> enabled then
          (let total_rows = length lrecs;
               cx = loop_context e [] lrecs rrecs right_output_cols thr incl prefer_rapidfuzz
                      callback update_every total_rows
           in
           bind_err (for_each (merge_step cx) [0..<total_rows] (init_state callback total_rows))
             (\<lambda>st.
               Inr (\<lparr>result_df = acc_rows st, best_scores = [], best_positions = [],
                     left_text = left_series, right_text = right_series,
                     similarity_enabled = False, similarity_engine = ''disabled'',
                     exact_match_count = 0, candidate_comparisons = 0,
                     left_match_columns_used = [], right_match_columns_used = []\<rparr>,
                    acc_progress_calls st)))
        else
          bind_err (tolist left_series) (\<lambda>ltexts.
          bind_err (tolist right_series) (\<lambda>rtexts.
            let total_rows = length ltexts;
                cx = loop_context e rtexts lrecs rrecs right_output_cols thr incl prefer_rapidfuzz
                       callback update_every total_rows
            in
            bind_err (for_each (match_step cx) (enumerate 0 ltexts)
                        (init_state callback total_rows))
              (\<lambda>st.
                Inr (\<lparr>result_df = acc_rows st, best_scores = acc_best_scores st,
                      best_positions = acc_best_positions st,
                      left_text = left_series, right_text = right_series,
                      similarity_enabled = True,
                      similarity_engine =
                        (if c_use_rapidfuzz cx then ''rapidfuzz'' else ''difflib''),
                      exact_match_count = acc_exact_match_count st,
                      candidate_comparisons = acc_candidate_comparisons st,
                      left_match_columns_used = effective_left_match_cols,
                      right_match_columns_used = effective_right_match_cols\<rparr>,
                     acc_progress_calls st)))))))))"

section \<open>The input contract\<close>

text \<open>
  The engine validates nothing. Its callers pass column names of the frames and at least
  one output column on each side (\<^verbatim>\<open>app_page.py\<close> stops before the call otherwise); an
  interval of zero would divide by zero at the first tick; and iterating over a finite
  set yields each member once. In the similarity mode a frame without rows makes
  \<open>run_matching\<close> raise at \<open>.tolist()\<close>, so there both frames have a row.
\<close>

definition output_selection_ok :: "dataframe \<Rightarrow> dataframe \<Rightarrow> string list \<Rightarrow> string list \<Rightarrow> bool" where
  "output_selection_ok left_df right_df left_output_cols right_output_cols =
     (has_columns left_df left_output_cols \<and> has_columns right_df right_output_cols
      \<and> left_output_cols \<noteq> [] \<and> right_output_cols \<noteq> [])"

definition match_selection_ok :: "dataframe \<Rightarrow> dataframe \<Rightarrow> string list \<Rightarrow> string list \<Rightarrow> bool" where
  "match_selection_ok left_df right_df left_match_cols right_match_cols =
     (has_columns left_df left_match_cols \<and> has_columns right_df right_match_cols)"

definition interval_ok :: "bool \<Rightarrow> int option \<Rightarrow> bool" where
  "interval_ok callback update_every = (callback \<longrightarrow> update_every \<noteq> Some 0)"

definition set_iter_ok :: "env \<Rightarrow> bool" where
  "set_iter_ok e = (\<forall>S. finite S \<longrightarrow> set (set_iter e S) = S \<and> distinct (set_iter e S))"

text \<open>The contract of a call: the match selections matter only when both are non-empty.\<close>

definition input_contract ::
  "env \<Rightarrow> dataframe \<Rightarrow> dataframe \<Rightarrow> string list \<Rightarrow> string list \<Rightarrow> string list \<Rightarrow> string list
     \<Rightarrow> bool \<Rightarrow> int option \<Rightarrow> bool" where
  "input_contract e left_df right_df left_output_cols right_output_cols
       left_match_cols right_match_cols callback update_every =
     (output_selection_ok left_df right_df left_output_cols right_output_cols
      \<and> interval_ok callback update_every
      \<and> (left_match_cols \<noteq> [] \<and> right_match_cols \<noteq> [] \<longrightarrow>
            match_selection_ok left_df right_df left_match_cols right_match_cols
            \<and> set_iter_ok e \<and> df_rows left_df \<noteq> [] \<and> df_rows right_df \<noteq> []))"

text \<open>
  What the proofs about normalisation use of the Unicode tables: the space is whitespace;
  lower-casing works on each side of a whitespace character separately and leaves that
  character alone (lower-casing is character by character except for the capital sigma,
  whose context ends at a whitespace character as it does at either end of the string);
  lower-casing a run of non-whitespace gives a run of non-whitespace, empty only if the
  run is; and lower-casing what is lower-cased changes nothing.
\<close>

definition str_tables_ok :: "env \<Rightarrow> bool" where
  "str_tables_ok e =
     (str_isspace e 32
      \<and> (\<forall>a w b. str_isspace e w \<longrightarrow> str_lower e (a @ w # b) = str_lower e a @ w # str_lower e b)
      \<and> str_lower e [] = []
      \<and> (\<forall>t. t \<noteq> [] \<and> (\<forall>c\<in>set t. \<not> str_isspace e c) \<longrightarrow>
              str_lower e t \<noteq> [] \<and> (\<forall>c\<in>set (str_lower e t). \<not> str_isspace e c))
      \<and> (\<forall>t. str_lower e (str_lower e t) = str_lower e t))"

section \<open>What the loops compute, row by row\<close>

text \<open>The best candidate of lines 171-176 as a fold, without the bounds check.\<close>

definition scan_best ::
  "env \<Rightarrow> bool \<Rightarrow> ustring \<Rightarrow> ustring list \<Rightarrow> nat list \<Rightarrow> real \<times> nat option \<Rightarrow> real \<times> nat option" where
  "scan_best e use_rf ltext rtexts ps acc =
     fold (\<lambda>p (best_score, best_right_pos).
             if similarity_ratio e ltext (rtexts ! p) use_rf > best_score
             then (similarity_ratio e ltext (rtexts ! p) use_rf, Some p)
             else (best_score, best_right_pos)) ps acc"

text \<open>The score and the position a left text gets, and what its row adds to each of the
  two counters, when every lookup is in range.\<close>

definition decide :: "loop_ctx \<Rightarrow> ustring \<Rightarrow> real \<times> nat option" where
  "decide cx ltext =
     (case c_exact_index cx ltext of
        Some ps \<Rightarrow> (1, Some (hd ps))
      | None \<Rightarrow> scan_best (c_env cx) (c_use_rapidfuzz cx) ltext (c_right_text_values cx)
                 (set_iter (c_env cx) (candidate_positions (c_env cx) (c_token_index cx) ltext))
                 (0, None))"

definition row_exact :: "loop_ctx \<Rightarrow> ustring \<Rightarrow> nat" where
  "row_exact cx ltext = (case c_exact_index cx ltext of Some ps \<Rightarrow> 1 | None \<Rightarrow> 0)"

definition row_comparisons :: "loop_ctx \<Rightarrow> ustring \<Rightarrow> nat" where
  "row_comparisons cx ltext =
     (case c_exact_index cx ltext of
        Some ps \<Rightarrow> 0
      | None \<Rightarrow> card (candidate_positions (c_env cx) (c_token_index cx) ltext))"

text \<open>The row a left row contributes to the output, in each mode, when every lookup is in
  range; and the calls its tick makes.\<close>

definition right_fields :: "loop_ctx \<Rightarrow> bool \<Rightarrow> nat \<Rightarrow> row_dict \<Rightarrow> row_dict" where
  "right_fields cx from_right p row =
     (if from_right then add_prefixed ''Right_'' (c_right_output_records cx ! p) row
      else add_missing ''Right_'' (c_right_output_cols cx) row)"

definition out_row :: "loop_ctx \<Rightarrow> nat \<Rightarrow> real \<Rightarrow> nat option \<Rightarrow> row_dict" where
  "out_row cx left_pos best_score best_right_pos =
     AList.update ''Match_Status''
       (Cell (Str (lit (if is_matched (c_threshold cx) best_score best_right_pos
                        then ''Matched'' else ''No match''))))
       (AList.update ''Similarity_Score'' (Score (py_round best_score 4))
          (right_fields cx (is_matched (c_threshold cx) best_score best_right_pos)
             (case best_right_pos of Some p \<Rightarrow> p | None \<Rightarrow> 0)
             (add_prefixed ''Left_'' (c_left_output_records cx ! left_pos) [])))"

definition emitted :: "loop_ctx \<Rightarrow> nat \<Rightarrow> real \<times> nat option \<Rightarrow> row_dict list" where
  "emitted cx left_pos d =
     (if is_matched (c_threshold cx) (fst d) (snd d) \<or> c_include_unmatched cx
      then [out_row cx left_pos (fst d) (snd d)] else [])"

definition merged :: "loop_ctx \<Rightarrow> nat \<Rightarrow> row_dict list" where
  "merged cx left_pos =
     (if left_pos < length (c_right_output_records cx) \<or> c_include_unmatched cx
      then [right_fields cx (left_pos < length (c_right_output_records cx)) left_pos
              (add_prefixed ''Left_'' (c_left_output_records cx ! left_pos) [])]
      else [])"

definition tick_calls :: "loop_ctx \<Rightarrow> nat \<Rightarrow> (nat \<times> nat) list" where
  "tick_calls cx left_pos =
     (if c_progress_callback cx
         \<and> (int (left_pos + 1) mod c_progress_update_every cx = 0 \<or> left_pos + 1 = c_total_rows cx)
      then [(left_pos + 1, c_total_rows cx)] else [])"

text \<open>What makes every lookup of the similarity loop stay in range.\<close>

definition ctx_ok :: "loop_ctx \<Rightarrow> bool" where
  "ctx_ok cx =
     (set_iter_ok (c_env cx)
      \<and> (\<forall>t ps. c_exact_index cx t = Some ps \<longrightarrow> ps \<noteq> [] \<and> hd ps < length (c_right_text_values cx))
      \<and> (\<forall>t. c_token_index cx t \<subseteq> {..<length (c_right_text_values cx)})
      \<and> length (c_right_output_records cx) = length (c_right_text_values cx)
      \<and> (c_progress_callback cx \<longrightarrow> c_progress_update_every cx \<noteq> 0))"

text \<open>The texts and records of a frame when the selection names columns of it (and, for
  the texts, the frame has a row or the selection is empty), and the context of a run.\<close>

definition text_values :: "env \<Rightarrow> dataframe \<Rightarrow> string list \<Rightarrow> ustring list" where
  "text_values e df cols =
     (case combine_columns e df cols of Inr (Series ts) \<Rightarrow> ts | Inr Frame \<Rightarrow> [] | Inl err \<Rightarrow> [])"

definition output_records :: "dataframe \<Rightarrow> string list \<Rightarrow> record_dict list" where
  "output_records df cols = (case to_dict_records df cols of Inr rs \<Rightarrow> rs | Inl err \<Rightarrow> [])"

definition run_context ::
  "env \<Rightarrow> dataframe \<Rightarrow> dataframe \<Rightarrow> string list \<Rightarrow> string list \<Rightarrow> string list \<Rightarrow> string list
     \<Rightarrow> real \<Rightarrow> bool \<Rightarrow> bool \<Rightarrow> bool \<Rightarrow> int option \<Rightarrow> loop_ctx" where
  "run_context e left_df right_df left_output_cols right_output_cols
       left_match_cols right_match_cols thr incl prefer_rapidfuzz callback update_every =
     loop_context e
       (if left_match_cols \<noteq> [] \<and> right_match_cols \<noteq> []
        then text_values e right_df right_match_cols else [])
       (output_records left_df left_output_cols) (output_records right_df right_output_cols)
       right_output_cols thr incl prefer_rapidfuzz callback update_every
       (length (df_rows left_df))"

section \<open>Output rows, in the words of the specification\<close>

text \<open>
  An output row carries the selected columns: every selected left column under its name
  prefixed \<open>Left_\<close>, with the cell of the left row, and every selected right column under
  its name prefixed \<open>Right_\<close>, with the cell of the right row when there is one and null
  otherwise; and it has no other field than these and the ones listed in \<open>extra\<close>.
\<close>

definition carries_columns ::
  "string list \<Rightarrow> (string \<Rightarrow> scalar) \<Rightarrow> string list \<Rightarrow> (string \<Rightarrow> scalar) option
     \<Rightarrow> string set \<Rightarrow> row_dict \<Rightarrow> bool" where
  "carries_columns left_output_cols lrow right_output_cols rrow extra row =
     ((\<forall>c\<in>set left_output_cols. map_of row (''Left_'' @ c) = Some (Cell (lrow c)))
      \<and> (\<forall>c\<in>set right_output_cols.
            map_of row (''Right_'' @ c) = Some (Cell (case rrow of Some r \<Rightarrow> r c | None \<Rightarrow> Null)))
      \<and> fst ` set row =
          (\<lambda>c. ''Left_'' @ c) ` set left_output_cols
          \<union> (\<lambda>c. ''Right_'' @ c) ` set right_output_cols \<union> extra)"

section \<open>Example inputs\<close>

text \<open>A row given by its cells; a column not listed is missing.\<close>

definition row_of :: "(string \<times> scalar) list \<Rightarrow> string \<Rightarrow> scalar" where
  "row_of cells c = (case map_of cells c of Some v \<Rightarrow> v | None \<Rightarrow> Null)"

text \<open>The Unicode tables restricted to ASCII: TAB, LF, VT, FF, CR, FS, GS, RS, US and the
  space are whitespace, and \<open>A\<close> to \<open>Z\<close> are lower-cased.\<close>

definition ascii_isspace :: "nat \<Rightarrow> bool" where
  "ascii_isspace n = ((9 \<le> n \<and> n \<le> 13) \<or> (28 \<le> n \<and> n \<le> 32))"

definition ascii_lower :: "ustring \<Rightarrow> ustring" where
  "ascii_lower s = map (\<lambda>n. if 65 \<le> n \<and> n \<le> 90 then n + 32 else n) s"

text \<open>An environment with these tables, without rapidfuzz, with a scorer that tells equal
  texts from different ones, and sets iterated in ascending order.\<close>

definition example_env :: env where
  "example_env =
     \<lparr>str_isspace = ascii_isspace,
      str_lower = ascii_lower,
      rapidfuzz_fuzz = None,
      difflib_ratio = (\<lambda>a b. if a = b then 1 else 1 / 2),
      set_iter = sorted_list_of_set\<rparr>"

definition example_left :: dataframe where
  "example_left =
     \<lparr>df_columns = [''id'', ''name''],
      df_rows = [row_of [(''id'', Other (lit ''1'')), (''name'', Str (lit ''ABC ''))],
                 row_of [(''id'', Other (lit ''2'')), (''name'', Null)],
                 row_of [(''id'', Other (lit ''3'')), (''name'', Str (lit '' john  Smith''))]]\<rparr>"

definition example_right :: dataframe where
  "example_right =
     \<lparr>df_columns = [''name'', ''city''],
      df_rows = [row_of [(''name'', Str (lit ''Jon smith'')), (''city'', Str (lit ''Leeds''))],
                 row_of [(''name'', Str (lit ''abc'')), (''city'', Null)]]\<rparr>"

text \<open>Two frames of one row each whose only cell normalises to the empty text, and a frame
  with a column and no row (a sheet with only its header).\<close>

definition blank_left :: dataframe where
  "blank_left = \<lparr>df_columns = [''name''], df_rows = [row_of [(''name'', Null)]]\<rparr>"

definition blank_right :: dataframe where
  "blank_right = \<lparr>df_columns = [''name''], df_rows = [row_of [(''name'', Str (lit '' ''))]]\<rparr>"

definition header_only :: dataframe where
  "header_only = \<lparr>df_columns = [''name''], df_rows = []\<rparr>"

section \<open>Proofs\<close>

subsection \<open>Errors, loops and the two indexes\<close>

lemma bind_err_Inr [simp]: "bind_err (Inr x) f = f x"
  by (simp add: bind_err_def)

lemma bind_err_Inl [simp]: "bind_err (Inl err) f = Inl err"
  by (simp add: bind_err_def)

lemma getitem_in_range [simp]: "i < length xs \<Longrightarrow> getitem xs i = Inr (xs ! i)"
  by (simp add: getitem_def)

lemma for_each_append:
  "for_each body (xs @ ys) st = bind_err (for_each body xs st) (for_each body ys)"
proof (induction xs arbitrary: st)
  case Nil
  show ?case by simp
next
  case (Cons x xs)
  show ?case
    by (cases "body st x") (simp_all add: Cons.IH)
qed

lemma enumerate_snoc:
  "enumerate n (xs @ [x]) = enumerate n xs @ [(n + length xs, x)]"
  by (induction xs arbitrary: n) simp_all

lemma build_exact_index_snoc:
  "build_exact_index (xs @ [x]) =
     (if x \<noteq> [] then
        (build_exact_index xs)(x \<mapsto>
           (case build_exact_index xs x of None \<Rightarrow> [] | Some ps \<Rightarrow> ps) @ [length xs])
      else build_exact_index xs)"
  by (simp add: build_exact_index_def enumerate_snoc)

lemma filter_upt_snoc_text:
  "filter (\<lambda>p. (xs @ [x]) ! p = t) [0..<length xs] = filter (\<lambda>p. xs ! p = t) [0..<length xs]"
  by (rule filter_cong) (simp_all add: nth_append)

lemma filter_positions_empty:
  "t \<notin> set xs \<Longrightarrow> filter (\<lambda>p. xs ! p = t) [0..<length xs] = []"
  by (auto simp: filter_empty_conv)

lemma build_exact_index_eq:
  "build_exact_index texts t =
     (if t \<noteq> [] \<and> t \<in> set texts
      then Some (filter (\<lambda>p. texts ! p = t) [0..<length texts]) else None)"
proof (induction texts arbitrary: t rule: rev_induct)
  case Nil
  show ?case by (simp add: build_exact_index_def)
next
  case (snoc x xs)
  show ?case
    by (simp add: build_exact_index_snoc snoc.IH filter_upt_snoc_text filter_positions_empty)
qed

lemma fold_insert_token:
  "fold (\<lambda>token idx. idx(token := insert pos (idx token))) toks idx t =
     (if t \<in> set toks then insert pos (idx t) else idx t)"
  by (induction toks arbitrary: idx) auto

lemma build_token_index_snoc:
  "build_token_index e (xs @ [x]) t =
     (if t \<in> set (py_split e x) then insert (length xs) (build_token_index e xs t)
      else build_token_index e xs t)"
  by (simp add: build_token_index_def enumerate_snoc fold_insert_token)

lemma build_token_index_eq:
  "build_token_index e texts t = {p. p < length texts \<and> t \<in> set (py_split e (texts ! p))}"
proof (induction texts rule: rev_induct)
  case Nil
  show ?case by (simp add: build_token_index_def)
next
  case (snoc x xs)
  have "{p. p < Suc (length xs) \<and> t \<in> set (py_split e ((xs @ [x]) ! p))} =
        (if t \<in> set (py_split e x) then insert (length xs) {p. p < length xs \<and> t \<in> set (py_split e (xs ! p))}
         else {p. p < length xs \<and> t \<in> set (py_split e (xs ! p))})"
    by (auto simp: nth_append less_Suc_eq)
  then show ?case
    by (simp add: build_token_index_snoc snoc.IH)
qed

lemma py_split_Nil [simp]: "py_split e [] = []"
  by (simp add: py_split.simps)

subsection \<open>The decision for one row\<close>

lemma scan_candidates_eq:
  "\<forall>p\<in>set ps. p < length rtexts \<Longrightarrow>
   scan_candidates e u ltext rtexts ps (bs, bp, c) =
     Inr (fst (scan_best e u ltext rtexts ps (bs, bp)),
          snd (scan_best e u ltext rtexts ps (bs, bp)), c + length ps)"
proof (induction ps arbitrary: bs bp c)
  case Nil
  show ?case by (simp add: scan_best_def)
next
  case (Cons p ps)
  from Cons.prems have p: "p < length rtexts" and rest: "\<forall>q\<in>set ps. q < length rtexts"
    by simp_all
  show ?case
    using Cons.IH [OF rest] p by (simp add: scan_best_def Let_def)
qed

lemma scan_best_pos:
  "snd (scan_best e u ltext rtexts ps (bs, bp)) = Some j \<Longrightarrow> j \<in> set ps \<or> bp = Some j"
proof (induction ps arbitrary: bs bp)
  case Nil
  then show ?case by (simp add: scan_best_def)
next
  case (Cons p ps)
  then show ?case
    by (fastforce simp: scan_best_def split: if_splits)
qed

lemma set_iter_empty:
  assumes "set_iter_ok e"
  shows "set_iter e {} = []"
proof -
  from assms have "set (set_iter e {}) = {}"
    unfolding set_iter_ok_def by blast
  then show ?thesis by simp
qed

lemma candidate_positions_finite:
  "\<forall>t. token_index t \<subseteq> {..<n} \<Longrightarrow> finite (candidate_positions e token_index ltext)"
  unfolding candidate_positions_def
  by (meson finite_UN_I finite_lessThan finite_set finite_subset)

lemma candidate_positions_bound:
  "\<forall>t. token_index t \<subseteq> {..<n} \<Longrightarrow> candidate_positions e token_index ltext \<subseteq> {..<n}"
  unfolding candidate_positions_def by blast

lemma candidate_positions_no_tokens:
  "set (py_split e ltext) = {} \<Longrightarrow> candidate_positions e token_index ltext = {}"
  by (simp add: candidate_positions_def)

lemma match_row_eq:
  assumes "ctx_ok cx"
  shows "match_row cx ltext ec cc =
           Inr (fst (decide cx ltext), snd (decide cx ltext),
                ec + row_exact cx ltext, cc + row_comparisons cx ltext)"
proof (cases "c_exact_index cx ltext")
  case (Some ps)
  with assms have "ps \<noteq> []" by (simp add: ctx_ok_def)
  then have "getitem ps 0 = Inr (hd ps)"
    by (cases ps) (simp_all add: getitem_def)
  with Some show ?thesis
    by (simp add: match_row_def decide_def row_exact_def row_comparisons_def)
next
  case None
  let ?C = "candidate_positions (c_env cx) (c_token_index cx) ltext"
  from assms have ok: "set_iter_ok (c_env cx)"
    and tok: "\<forall>t. c_token_index cx t \<subseteq> {..<length (c_right_text_values cx)}"
    by (simp_all add: ctx_ok_def)
  have fin: "finite ?C" using tok by (rule candidate_positions_finite)
  have sub: "?C \<subseteq> {..<length (c_right_text_values cx)}"
    using tok by (rule candidate_positions_bound)
  from ok fin have it: "set (set_iter (c_env cx) ?C) = ?C" "distinct (set_iter (c_env cx) ?C)"
    by (simp_all add: set_iter_ok_def)
  then have len: "length (set_iter (c_env cx) ?C) = card ?C"
    using distinct_card by fastforce
  have bound: "\<forall>p\<in>set (set_iter (c_env cx) ?C). p < length (c_right_text_values cx)"
    using it(1) sub by auto
  show ?thesis
  proof (cases "set (py_split (c_env cx) ltext) = {}")
    case True
    then have "?C = {}" by (rule candidate_positions_no_tokens)
    with ok have "set_iter (c_env cx) ?C = []" by (simp add: set_iter_empty)
    with None True \<open>?C = {}\<close> show ?thesis
      by (simp add: match_row_def decide_def row_exact_def row_comparisons_def scan_best_def)
  next
    case False
    with None show ?thesis
      by (simp add: match_row_def decide_def row_exact_def row_comparisons_def
          scan_candidates_eq [OF bound] len)
  qed
qed

lemma decide_pos_valid:
  assumes "ctx_ok cx" and "snd (decide cx ltext) = Some j"
  shows "j < length (c_right_text_values cx)"
proof (cases "c_exact_index cx ltext")
  case (Some ps)
  with assms show ?thesis by (auto simp: decide_def ctx_ok_def)
next
  case None
  let ?C = "candidate_positions (c_env cx) (c_token_index cx) ltext"
  from assms(1) have ok: "set_iter_ok (c_env cx)"
    and tok: "\<forall>t. c_token_index cx t \<subseteq> {..<length (c_right_text_values cx)}"
    by (simp_all add: ctx_ok_def)
  have "finite ?C" using tok by (rule candidate_positions_finite)
  with ok have it: "set (set_iter (c_env cx) ?C) = ?C" by (simp add: set_iter_ok_def)
  from None assms(2) have "j \<in> set (set_iter (c_env cx) ?C)"
    using scan_best_pos [of "c_env cx" "c_use_rapidfuzz cx" ltext "c_right_text_values cx"
        "set_iter (c_env cx) ?C" 0 None j]
    by (simp add: decide_def)
  with it candidate_positions_bound [OF tok, of "c_env cx" ltext] show ?thesis by auto
qed

subsection \<open>The loop of the similarity mode\<close>

lemma emit_row_eq:
  assumes "left_pos < length (c_left_output_records cx)"
    and "\<And>j. p = Some j \<Longrightarrow> j < length (c_right_output_records cx)"
  shows "emit_row cx left_pos s p rows = Inr (rows @ emitted cx left_pos (s, p))"
proof (cases p)
  case None
  with assms(1) show ?thesis
    by (simp add: emit_row_def emitted_def out_row_def right_fields_def is_matched_def)
next
  case (Some j)
  with assms(2) have "j < length (c_right_output_records cx)" by simp
  with Some assms(1) show ?thesis
    by (simp add: emit_row_def emitted_def out_row_def right_fields_def Let_def)
qed

lemma progress_tick_eq:
  "c_progress_callback cx \<longrightarrow> c_progress_update_every cx \<noteq> 0 \<Longrightarrow>
   progress_tick cx left_pos calls = Inr (calls @ tick_calls cx left_pos)"
  by (simp add: progress_tick_def tick_calls_def)

lemma match_step_eq:
  assumes ok: "ctx_ok cx" and pos: "left_pos < length (c_left_output_records cx)"
  shows "match_step cx st (left_pos, ltext) =
     Inr \<lparr>acc_rows = acc_rows st @ emitted cx left_pos (decide cx ltext),
          acc_best_scores = acc_best_scores st @ [fst (decide cx ltext)],
          acc_best_positions = acc_best_positions st @ [snd (decide cx ltext)],
          acc_exact_match_count = acc_exact_match_count st + row_exact cx ltext,
          acc_candidate_comparisons = acc_candidate_comparisons st + row_comparisons cx ltext,
          acc_progress_calls = acc_progress_calls st @ tick_calls cx left_pos\<rparr>"
proof -
  have valid: "\<And>j. snd (decide cx ltext) = Some j \<Longrightarrow> j < length (c_right_output_records cx)"
    using decide_pos_valid [OF ok] ok by (simp add: ctx_ok_def)
  have tick: "c_progress_callback cx \<longrightarrow> c_progress_update_every cx \<noteq> 0"
    using ok by (simp add: ctx_ok_def)
  show ?thesis
    by (simp add: match_step_def match_row_eq [OF ok] emit_row_eq [OF pos valid]
        progress_tick_eq [OF tick])
qed

lemma match_loop_eq:
  assumes ok: "ctx_ok cx"
  shows "k + length ts \<le> length (c_left_output_records cx) \<Longrightarrow>
     for_each (match_step cx) (enumerate k ts) st =
     Inr \<lparr>acc_rows = acc_rows st @ concat (map (\<lambda>(i, t). emitted cx i (decide cx t)) (enumerate k ts)),
          acc_best_scores = acc_best_scores st @ map (\<lambda>t. fst (decide cx t)) ts,
          acc_best_positions = acc_best_positions st @ map (\<lambda>t. snd (decide cx t)) ts,
          acc_exact_match_count = acc_exact_match_count st + sum_list (map (row_exact cx) ts),
          acc_candidate_comparisons =
            acc_candidate_comparisons st + sum_list (map (row_comparisons cx) ts),
          acc_progress_calls =
            acc_progress_calls st @ concat (map (tick_calls cx) [k..<k + length ts])\<rparr>"
proof (induction ts arbitrary: k st)
  case Nil
  show ?case by simp
next
  case (Cons t ts)
  from Cons.prems have pos: "k < length (c_left_output_records cx)"
    and rest: "Suc k + length ts \<le> length (c_left_output_records cx)"
    by simp_all
  have upt: "[k..<Suc (k + length ts)] = k # [Suc k..<Suc (k + length ts)]"
    by (rule upt_conv_Cons) simp
  show ?case
    by (simp add: match_step_eq [OF ok pos] Cons.IH [OF rest] upt del: upt_Suc)
qed

subsection \<open>The loop of the positional merge\<close>

lemma merge_step_eq:
  assumes pos: "left_pos < length (c_left_output_records cx)"
    and tick: "c_progress_callback cx \<longrightarrow> c_progress_update_every cx \<noteq> 0"
  shows "merge_step cx st left_pos =
     Inr (st\<lparr>acc_rows := acc_rows st @ merged cx left_pos,
             acc_progress_calls := acc_progress_calls st @ tick_calls cx left_pos\<rparr>)"
  using pos
  by (simp add: merge_step_def merged_def right_fields_def progress_tick_eq [OF tick] Let_def)

lemma merge_loop_eq:
  assumes tick: "c_progress_callback cx \<longrightarrow> c_progress_update_every cx \<noteq> 0"
  shows "k + m \<le> length (c_left_output_records cx) \<Longrightarrow>
     for_each (merge_step cx) [k..<k + m] st =
     Inr (st\<lparr>acc_rows := acc_rows st @ concat (map (merged cx) [k..<k + m]),
             acc_progress_calls :=
               acc_progress_calls st @ concat (map (tick_calls cx) [k..<k + m])\<rparr>)"
proof (induction m arbitrary: k st)
  case 0
  show ?case by simp
next
  case (Suc m)
  from Suc.prems have pos: "k < length (c_left_output_records cx)"
    and rest: "Suc k + m \<le> length (c_left_output_records cx)"
    by simp_all
  have upt: "[k..<Suc (k + m)] = k # [Suc k..<Suc (k + m)]"
    by (rule upt_conv_Cons) simp
  show ?case
    using Suc.IH [OF rest]
    by (simp add: merge_step_eq [OF pos tick] upt del: upt_Suc)
qed

subsection \<open>Frames and the context of a run\<close>

lemma combine_columns_ok:
  "has_columns df cols \<Longrightarrow> cols = [] \<or> df_rows df \<noteq> [] \<Longrightarrow>
   combine_columns e df cols = Inr (Series (text_values e df cols))"
  by (auto simp: text_values_def combine_columns_def)

lemma combine_columns_no_rows:
  "has_columns df cols \<Longrightarrow> cols \<noteq> [] \<Longrightarrow> df_rows df = [] \<Longrightarrow>
   combine_columns e df cols = Inr Frame"
  by (simp add: combine_columns_def)

lemma length_text_values:
  "has_columns df cols \<Longrightarrow> length (text_values e df cols) = length (df_rows df)"
  by (simp add: text_values_def combine_columns_def)

lemma has_columns_Nil [simp]: "has_columns df []"
  by (simp add: has_columns_def)

lemma to_dict_records_ok:
  "has_columns df cols \<Longrightarrow> to_dict_records df cols = Inr (output_records df cols)"
  by (simp add: output_records_def to_dict_records_def)

lemma length_output_records:
  "has_columns df cols \<Longrightarrow> cols \<noteq> [] \<Longrightarrow> length (output_records df cols) = length (df_rows df)"
  by (simp add: output_records_def to_dict_records_def)

lemma nth_output_records:
  "has_columns df cols \<Longrightarrow> cols \<noteq> [] \<Longrightarrow> i < length (df_rows df) \<Longrightarrow>
   output_records df cols ! i = fold (\<lambda>c d. AList.update c ((df_rows df ! i) c) d) cols []"
  by (simp add: output_records_def to_dict_records_def)

lemma filter_upt_Suc: "filter P [0..<Suc n] = filter P [0..<n] @ (if P n then [n] else [])"
  by simp

lemma hd_filter_upt:
  "filter P [0..<n] \<noteq> [] \<Longrightarrow>
   hd (filter P [0..<n]) < n \<and> P (hd (filter P [0..<n])) \<and> (\<forall>k<hd (filter P [0..<n]). \<not> P k)"
proof (induction n)
  case 0
  then show ?case by simp
next
  case (Suc n)
  show ?case
  proof (cases "filter P [0..<n] = []")
    case True
    have pn: "P n"
    proof (rule ccontr)
      assume "\<not> P n"
      then have "filter P [0..<Suc n] = []" using True by (simp only: filter_upt_Suc if_False append_Nil2)
      with Suc.prems show False by blast
    qed
    from True have none: "\<forall>k<n. \<not> P k"
      unfolding filter_empty_conv by simp
    from True pn have "filter P [0..<Suc n] = [n]"
      by (simp only: filter_upt_Suc if_True append_Nil)
    then have "hd (filter P [0..<Suc n]) = n" by (simp only: list.sel)
    then show ?thesis using pn none by (metis lessI)
  next
    case False
    then have eq: "hd (filter P [0..<Suc n]) = hd (filter P [0..<n])"
      unfolding filter_upt_Suc by (rule hd_append2)
    from Suc.IH [OF False] have a: "hd (filter P [0..<n]) < n"
      and b: "P (hd (filter P [0..<n]))" and c: "\<forall>k<hd (filter P [0..<n]). \<not> P k"
      by blast+
    from a have "hd (filter P [0..<n]) < Suc n" by (rule less_SucI)
    with b c show ?thesis unfolding eq by blast
  qed
qed

lemma exact_index_valid:
  assumes "build_exact_index texts t = Some ps"
  shows "ps \<noteq> [] \<and> hd ps < length texts"
proof -
  let ?P = "\<lambda>p. texts ! p = t"
  from assms have ps: "ps = filter ?P [0..<length texts]" and mem: "t \<in> set texts"
    by (simp_all add: build_exact_index_eq split: if_splits)
  from mem obtain i where "i < length texts" "texts ! i = t"
    by (auto simp: in_set_conv_nth)
  then have ne: "filter ?P [0..<length texts] \<noteq> []"
    by (auto simp: filter_empty_conv)
  from hd_filter_upt [OF ne] have "hd (filter ?P [0..<length texts]) < length texts"
    by blast
  with ne show ?thesis unfolding ps by blast
qed


lemma run_context_ok:
  assumes "set_iter_ok e" and "interval_ok callback update_every"
    and "has_columns right_df right_output_cols" and "right_output_cols \<noteq> []"
    and "has_columns right_df right_match_cols"
    and "left_match_cols \<noteq> []" and "right_match_cols \<noteq> []"
  shows "ctx_ok (run_context e left_df right_df left_output_cols right_output_cols
                   left_match_cols right_match_cols thr incl prefer callback update_every)"
proof -
  have len: "length (output_records right_df right_output_cols)
               = length (text_values e right_df right_match_cols)"
    using length_output_records [OF assms(3,4)] length_text_values [OF assms(5)] by simp
  have every: "callback \<longrightarrow>
      (case update_every of None \<Rightarrow> max (int (length (df_rows left_df)) div 200) 1 | Some n \<Rightarrow> n) \<noteq> 0"
    using assms(2) by (cases update_every) (auto simp: interval_ok_def)
  let ?cx = "run_context e left_df right_df left_output_cols right_output_cols
               left_match_cols right_match_cols thr incl prefer callback update_every"
  have 1: "set_iter_ok (c_env ?cx)"
    using assms(1) by (simp add: run_context_def loop_context_def)
  have 2: "\<forall>t ps. c_exact_index ?cx t = Some ps \<longrightarrow> ps \<noteq> [] \<and> hd ps < length (c_right_text_values ?cx)"
    using exact_index_valid assms(6,7) by (simp add: run_context_def loop_context_def)
  have 3: "\<forall>t. c_token_index ?cx t \<subseteq> {..<length (c_right_text_values ?cx)}"
    using assms(6,7) by (auto simp: run_context_def loop_context_def build_token_index_eq)
  have 4: "length (c_right_output_records ?cx) = length (c_right_text_values ?cx)"
    using len assms(6,7) by (simp add: run_context_def loop_context_def)
  have 5: "c_progress_callback ?cx \<longrightarrow> c_progress_update_every ?cx \<noteq> 0"
    using every by (simp add: run_context_def loop_context_def)
  from 1 2 3 4 5 show ?thesis
    unfolding ctx_ok_def by blast
qed

subsection \<open>The result of a run\<close>

lemma run_matching_enabled_eq:
  fixes e L R lo ro lm rm thr incl pr cb ue
  defines "cx \<equiv> run_context e L R lo ro lm rm thr incl pr cb ue"
  assumes en: "lm \<noteq> []" "rm \<noteq> []"
    and out: "output_selection_ok L R lo ro"
    and mt: "match_selection_ok L R lm rm"
    and iv: "interval_ok cb ue"
    and it: "set_iter_ok e"
    and rows: "df_rows L \<noteq> []" "df_rows R \<noteq> []"
  shows "run_matching e L R lo ro lm rm thr incl pr cb ue =
     Inr (\<lparr>result_df =
             concat (map (\<lambda>(i, t). emitted cx i (decide cx t)) (enumerate 0 (text_values e L lm))),
           best_scores = map (\<lambda>t. fst (decide cx t)) (text_values e L lm),
           best_positions = map (\<lambda>t. snd (decide cx t)) (text_values e L lm),
           left_text = Series (text_values e L lm),
           right_text = Series (text_values e R rm),
           similarity_enabled = True,
           similarity_engine = (if c_use_rapidfuzz cx then ''rapidfuzz'' else ''difflib''),
           exact_match_count = sum_list (map (row_exact cx) (text_values e L lm)),
           candidate_comparisons = sum_list (map (row_comparisons cx) (text_values e L lm)),
           left_match_columns_used = lm,
           right_match_columns_used = rm\<rparr>,
          (if cb then [(0, length (df_rows L))] else [])
            @ concat (map (tick_calls cx) [0..<length (df_rows L)]))"
proof -
  from out have lo: "has_columns L lo" "lo \<noteq> []" and ro: "has_columns R ro" "ro \<noteq> []"
    by (simp_all add: output_selection_ok_def)
  from mt have lmc: "has_columns L lm" and rmc: "has_columns R rm"
    by (simp_all add: match_selection_ok_def)
  have n: "length (text_values e L lm) = length (df_rows L)"
    using lmc by (rule length_text_values)
  have cx_eq: "loop_context e (text_values e R rm) (output_records L lo) (output_records R ro)
                 ro thr incl pr cb ue (length (df_rows L)) = cx"
    using en by (simp add: cx_def run_context_def)
  have ok: "ctx_ok cx"
    unfolding cx_def using it iv ro rmc en by (rule run_context_ok)
  have lrecs: "c_left_output_records cx = output_records L lo"
    by (simp add: cx_def run_context_def loop_context_def)
  have bound: "0 + length (text_values e L lm) \<le> length (c_left_output_records cx)"
    using n length_output_records [OF lo] by (simp add: lrecs)
  note loop = match_loop_eq [OF ok bound, of "init_state cb (length (df_rows L))"]
  have run: "run_matching e L R lo ro lm rm thr incl pr cb ue =
      bind_err (for_each (match_step cx) (enumerate 0 (text_values e L lm))
                  (init_state cb (length (df_rows L))))
        (\<lambda>st. Inr (\<lparr>result_df = acc_rows st, best_scores = acc_best_scores st,
                    best_positions = acc_best_positions st,
                    left_text = Series (text_values e L lm), right_text = Series (text_values e R rm),
                    similarity_enabled = True,
                    similarity_engine = (if c_use_rapidfuzz cx then ''rapidfuzz'' else ''difflib''),
                    exact_match_count = acc_exact_match_count st,
                    candidate_comparisons = acc_candidate_comparisons st,
                    left_match_columns_used = lm,
                    right_match_columns_used = rm\<rparr>,
                   acc_progress_calls st))"
    using en
    by (simp add: run_matching_def combine_columns_ok [OF lmc disjI2 [OF rows(1)]]
        combine_columns_ok [OF rmc disjI2 [OF rows(2)]]
        to_dict_records_ok [OF lo(1)] to_dict_records_ok [OF ro(1)] n cx_eq Let_def)
  show ?thesis
    unfolding run loop by (simp add: init_state_def n)
qed

lemma run_matching_disabled_eq:
  fixes e L R lo ro lm rm thr incl pr cb ue
  defines "cx \<equiv> run_context e L R lo ro lm rm thr incl pr cb ue"
  assumes dis: "\<not> (lm \<noteq> [] \<and> rm \<noteq> [])"
    and out: "output_selection_ok L R lo ro"
    and iv: "interval_ok cb ue"
  shows "run_matching e L R lo ro lm rm thr incl pr cb ue =
     Inr (\<lparr>result_df = concat (map (merged cx) [0..<length (df_rows L)]),
           best_scores = [], best_positions = [],
           left_text = Series (replicate (length (df_rows L)) []),
           right_text = Series (replicate (length (df_rows R)) []),
           similarity_enabled = False, similarity_engine = ''disabled'',
           exact_match_count = 0, candidate_comparisons = 0,
           left_match_columns_used = [], right_match_columns_used = []\<rparr>,
          (if cb then [(0, length (df_rows L))] else [])
            @ concat (map (tick_calls cx) [0..<length (df_rows L)]))"
proof -
  from out have lo: "has_columns L lo" "lo \<noteq> []" and ro: "has_columns R ro" "ro \<noteq> []"
    by (simp_all add: output_selection_ok_def)
  have n: "length (output_records L lo) = length (df_rows L)"
    using lo by (rule length_output_records)
  have cx_eq: "loop_context e [] (output_records L lo)
                 (output_records R ro) ro thr incl pr cb ue (length (df_rows L)) = cx"
  proof -
    have off: "(lm \<noteq> [] \<and> rm \<noteq> []) = False"
      using dis by simp
    show ?thesis
      unfolding cx_def run_context_def off if_False ..
  qed
  have tick: "c_progress_callback cx \<longrightarrow> c_progress_update_every cx \<noteq> 0"
    using iv by (cases ue) (auto simp: cx_def run_context_def loop_context_def interval_ok_def)
  have lrecs: "c_left_output_records cx = output_records L lo"
    by (simp add: cx_def run_context_def loop_context_def)
  have bound: "0 + length (df_rows L) \<le> length (c_left_output_records cx)"
    by (simp add: lrecs n)
  note loop = merge_loop_eq [OF tick bound, of "init_state cb (length (df_rows L))"]
  have run: "run_matching e L R lo ro lm rm thr incl pr cb ue =
      bind_err (for_each (merge_step cx) [0..<0 + length (df_rows L)]
                  (init_state cb (length (df_rows L))))
        (\<lambda>st. Inr (\<lparr>result_df = acc_rows st, best_scores = [], best_positions = [],
                    left_text = Series (replicate (length (df_rows L)) []),
                    right_text = Series (replicate (length (df_rows R)) []),
                    similarity_enabled = False, similarity_engine = ''disabled'',
                    exact_match_count = 0, candidate_comparisons = 0,
                    left_match_columns_used = [], right_match_columns_used = []\<rparr>,
                   acc_progress_calls st))"
  proof -
    have off: "(lm \<noteq> [] \<and> rm \<noteq> []) = False"
      using dis by simp
    have empty: "combine_columns e L [] = Inr (Series (replicate (length (df_rows L)) []))"
      "combine_columns e R [] = Inr (Series (replicate (length (df_rows R)) []))"
      by (simp_all add: combine_columns_def)
    show ?thesis
      unfolding run_matching_def Let_def off if_False
      by (simp add: empty to_dict_records_ok [OF lo(1)] to_dict_records_ok [OF ro(1)] n cx_eq)
  qed
  show ?thesis
    unfolding run loop by (simp add: init_state_def)
qed


text \<open>A frame without rows: the combined text is no series, and \<open>.tolist()\<close> raises.\<close>

lemma run_matching_no_rows:
  assumes en: "lm \<noteq> []" "rm \<noteq> []"
    and out: "output_selection_ok L R lo ro"
    and mt: "match_selection_ok L R lm rm"
    and rows: "df_rows L = [] \<or> df_rows R = []"
  shows "run_matching e L R lo ro lm rm thr incl pr cb ue = Inl AttributeError"
proof -
  from out have lo: "has_columns L lo" and ro: "has_columns R ro"
    by (simp_all add: output_selection_ok_def)
  from mt have lmc: "has_columns L lm" and rmc: "has_columns R rm"
    by (simp_all add: match_selection_ok_def)
  show ?thesis
  proof (cases "df_rows L = []")
    case True
    have l: "combine_columns e L lm = Inr Frame"
      using lmc en(1) True by (rule combine_columns_no_rows)
    have "\<exists>y. combine_columns e R rm = Inr y"
      using rmc en(2) by (simp add: combine_columns_def)
    then obtain y where r: "combine_columns e R rm = Inr y" ..
    show ?thesis
      using en
      by (simp add: run_matching_def l r to_dict_records_ok [OF lo] to_dict_records_ok [OF ro] Let_def)
  next
    case False
    with rows have R: "df_rows R = []" by simp
    have l: "combine_columns e L lm = Inr (Series (text_values e L lm))"
      using lmc disjI2 [OF False] by (rule combine_columns_ok)
    have r: "combine_columns e R rm = Inr Frame"
      using rmc en(2) R by (rule combine_columns_no_rows)
    show ?thesis
      using en
      by (simp add: run_matching_def l r to_dict_records_ok [OF lo] to_dict_records_ok [OF ro] Let_def)
  qed
qed
subsection \<open>Reading a successful run\<close>

lemma bind_err_eq_Inr: "bind_err m f = Inr y \<longleftrightarrow> (\<exists>x. m = Inr x \<and> f x = Inr y)"
  by (cases m) simp_all

lemma set_iter_ok_sorted: "set_iter_ok example_env"
  by (simp add: set_iter_ok_def example_env_def)

subsection \<open>Normal forms of texts\<close>

lemma tables_space: "str_tables_ok e \<Longrightarrow> str_isspace e 32"
  by (simp add: str_tables_ok_def)

lemma tables_lower_Nil: "str_tables_ok e \<Longrightarrow> str_lower e [] = []"
  by (simp add: str_tables_ok_def)

lemma tables_lower_cut:
  "str_tables_ok e \<Longrightarrow> str_isspace e w \<Longrightarrow>
   str_lower e (a @ w # b) = str_lower e a @ w # str_lower e b"
  unfolding str_tables_ok_def by blast

lemma tables_lower_token:
  "str_tables_ok e \<Longrightarrow> t \<noteq> [] \<Longrightarrow> \<forall>c\<in>set t. \<not> str_isspace e c \<Longrightarrow>
   str_lower e t \<noteq> [] \<and> (\<forall>c\<in>set (str_lower e t). \<not> str_isspace e c)"
  unfolding str_tables_ok_def by blast

lemma tables_lower_idem: "str_tables_ok e \<Longrightarrow> str_lower e (str_lower e t) = str_lower e t"
  by (simp add: str_tables_ok_def)

lemma lower_spaces_prefix:
  assumes "str_tables_ok e"
  shows "\<forall>c\<in>set ws. str_isspace e c \<Longrightarrow> str_lower e (ws @ y) = ws @ str_lower e y"
proof (induction ws)
  case Nil
  show ?case by simp
next
  case (Cons w ws)
  from Cons.prems have w: "str_isspace e w" and ws: "\<forall>c\<in>set ws. str_isspace e c" by simp_all
  have "str_lower e ((w # ws) @ y) = str_lower e ([] @ w # (ws @ y))" by simp
  also have "\<dots> = str_lower e [] @ w # str_lower e (ws @ y)"
    using assms w by (rule tables_lower_cut)
  also have "\<dots> = w # ws @ str_lower e y"
    using Cons.IH [OF ws] tables_lower_Nil [OF assms] by simp
  finally show ?case by simp
qed

lemma lower_token_rest:
  assumes "str_tables_ok e" and "rest = [] \<or> str_isspace e (hd rest)"
  shows "str_lower e (tok @ rest) = str_lower e tok @ str_lower e rest"
proof (cases rest)
  case Nil
  then show ?thesis using tables_lower_Nil [OF assms(1)] by simp
next
  case (Cons w r)
  with assms(2) have w: "str_isspace e w" by simp
  have "str_lower e (w # r) = str_lower e ([] @ w # r)" by simp
  also have "\<dots> = str_lower e [] @ w # str_lower e r"
    using assms(1) w by (rule tables_lower_cut)
  finally have 1: "str_lower e (w # r) = w # str_lower e r"
    using tables_lower_Nil [OF assms(1)] by simp
  show ?thesis
    unfolding Cons 1 using assms(1) w by (rule tables_lower_cut)
qed

text \<open>A text that starts with a non-whitespace character: its first token and the rest.\<close>

lemma token_cut:
  assumes "y \<noteq> []" and "\<not> str_isspace e (hd y)"
  defines "tok \<equiv> takeWhile (\<lambda>x. \<not> str_isspace e x) y"
    and "rest \<equiv> dropWhile (\<lambda>x. \<not> str_isspace e x) y"
  shows "y = tok @ rest" and "tok \<noteq> []" and "\<forall>c\<in>set tok. \<not> str_isspace e c"
    and "rest = [] \<or> str_isspace e (hd rest)"
proof -
  show "y = tok @ rest" by (simp add: tok_def rest_def)
  from assms(1,2) show "tok \<noteq> []" by (cases y) (simp_all add: tok_def)
  show "\<forall>c\<in>set tok. \<not> str_isspace e c"
    unfolding tok_def using set_takeWhileD by fastforce
  show "rest = [] \<or> str_isspace e (hd rest)"
  proof (cases "rest = []")
    case True
    then show ?thesis ..
  next
    case False
    then have "\<not> \<not> str_isspace e (hd rest)" unfolding rest_def by (rule hd_dropWhile)
    then show ?thesis by simp
  qed
qed

lemma token_rest_shorter:
  assumes "y \<noteq> []" and "\<not> str_isspace e (hd y)"
  shows "length (dropWhile (\<lambda>x. \<not> str_isspace e x) y) < length y"
proof -
  from assms obtain c cs where y: "y = c # cs" and c: "\<not> str_isspace e c"
    by (cases y) auto
  have "length (dropWhile (\<lambda>x. \<not> str_isspace e x) cs) \<le> length cs"
    by (rule length_dropWhile_le)
  then show ?thesis using c by (simp add: y)
qed

lemma lower_starts_token:
  assumes "str_tables_ok e" and "y \<noteq> []" and "\<not> str_isspace e (hd y)"
  shows "str_lower e y \<noteq> [] \<and> \<not> str_isspace e (hd (str_lower e y))"
proof -
  let ?tok = "takeWhile (\<lambda>x. \<not> str_isspace e x) y"
  let ?rest = "dropWhile (\<lambda>x. \<not> str_isspace e x) y"
  note cut = token_cut [OF assms(2,3)]
  have "str_lower e (?tok @ ?rest) = str_lower e ?tok @ str_lower e ?rest"
    using assms(1) cut(4) by (rule lower_token_rest)
  then have eq: "str_lower e y = str_lower e ?tok @ str_lower e ?rest" by simp
  from tables_lower_token [OF assms(1) cut(2,3)]
  have ne: "str_lower e ?tok \<noteq> []" and free: "\<forall>c\<in>set (str_lower e ?tok). \<not> str_isspace e c"
    by blast+
  from ne have "hd (str_lower e ?tok) \<in> set (str_lower e ?tok)" by (rule hd_in_set)
  with free have "\<not> str_isspace e (hd (str_lower e ?tok))" by blast
  with ne show ?thesis unfolding eq by simp
qed

subsubsection \<open>Splitting\<close>

lemma py_split_skip: "str_isspace e w \<Longrightarrow> py_split e (w # r) = py_split e r"
  by (simp add: py_split.simps [of e "w # r"] py_split.simps [of e r])

lemma py_split_dropWhile: "py_split e (dropWhile (str_isspace e) x) = py_split e x"
proof -
  have "dropWhile (str_isspace e) (dropWhile (str_isspace e) x) = dropWhile (str_isspace e) x"
    by (rule dropWhile_idem)
  then show ?thesis
    by (simp only: py_split.simps [of e "dropWhile (str_isspace e) x"] py_split.simps [of e x])
qed

lemma py_split_token:
  assumes "tok \<noteq> []" and "\<forall>c\<in>set tok. \<not> str_isspace e c"
    and "rest = [] \<or> str_isspace e (hd rest)"
  shows "py_split e (tok @ rest) = tok # py_split e rest"
proof -
  from assms(1) obtain c cs where tok: "tok = c # cs" by (cases tok) auto
  with assms(2) have c: "\<not> str_isspace e c" and cs: "\<forall>x\<in>set cs. \<not> str_isspace e x"
    by simp_all
  have d: "dropWhile (str_isspace e) ((c # cs) @ rest) = c # (cs @ rest)"
    using c by simp
  have t: "takeWhile (\<lambda>x. \<not> str_isspace e x) (cs @ rest) = cs"
    using cs assms(3) by (cases rest) (simp_all add: takeWhile_append2)
  have r: "dropWhile (\<lambda>x. \<not> str_isspace e x) (cs @ rest) = rest"
    using cs assms(3) by (cases rest) (simp_all add: dropWhile_append2)
  have "py_split e ((c # cs) @ rest)
          = (case dropWhile (str_isspace e) ((c # cs) @ rest) of
               [] \<Rightarrow> []
             | c # cs \<Rightarrow> (c # takeWhile (\<lambda>x. \<not> str_isspace e x) cs)
                          # py_split e (dropWhile (\<lambda>x. \<not> str_isspace e x) cs))"
    by (rule py_split.simps)
  also have "\<dots> = (c # cs) # py_split e rest"
    by (simp only: d list.case t r)
  finally show ?thesis unfolding tok .
qed

lemma py_split_spaces: "\<forall>c\<in>set ws. str_isspace e c \<Longrightarrow> py_split e ws = []"
proof -
  assume "\<forall>c\<in>set ws. str_isspace e c"
  then have d: "dropWhile (str_isspace e) ws = []" by simp
  have "py_split e ws
          = (case dropWhile (str_isspace e) ws of
               [] \<Rightarrow> []
             | c # cs \<Rightarrow> (c # takeWhile (\<lambda>x. \<not> str_isspace e x) cs)
                          # py_split e (dropWhile (\<lambda>x. \<not> str_isspace e x) cs))"
    by (rule py_split.simps)
  then show ?thesis by (simp only: d list.case)
qed

lemma py_split_trailing:
  assumes ws: "\<forall>c\<in>set ws. str_isspace e c"
  shows "py_split e (x @ ws) = py_split e x"
proof (induction "length x" arbitrary: x rule: less_induct)
  case less
  let ?d = "dropWhile (str_isspace e) x"
  show ?case
  proof (cases "\<forall>c\<in>set x. str_isspace e c")
    case True
    with ws have "\<forall>c\<in>set (x @ ws). str_isspace e c" by auto
    then have "py_split e (x @ ws) = []" by (rule py_split_spaces)
    moreover from True have "py_split e x = []" by (rule py_split_spaces)
    ultimately show ?thesis by (simp only:)
  next
    case False
    then have dne: "?d \<noteq> []" by (simp only: dropWhile_eq_Nil_conv not_False_eq_True)
    then have hd: "\<not> str_isspace e (hd ?d)" by (rule hd_dropWhile)
    let ?tok = "takeWhile (\<lambda>x. \<not> str_isspace e x) ?d"
    let ?rest = "dropWhile (\<lambda>x. \<not> str_isspace e x) ?d"
    note cut = token_cut [OF dne hd]
    have td: "?tok @ ?rest = ?d" by (rule takeWhile_dropWhile_id)
    have "length ?rest < length ?d" using dne hd by (rule token_rest_shorter)
    moreover have "length ?d \<le> length x" by (rule length_dropWhile_le)
    ultimately have "length ?rest < length x" by (rule less_le_trans)
    then have ih: "py_split e (?rest @ ws) = py_split e ?rest" by (rule less)
    have next_ws: "?rest @ ws = [] \<or> str_isspace e (hd (?rest @ ws))"
    proof (cases "?rest = []")
      case True
      have "ws = [] \<or> str_isspace e (hd ws)" using ws by (cases ws) simp_all
      then show ?thesis by (simp only: True append_Nil)
    next
      case False
      with cut(4) have "str_isspace e (hd ?rest)" by blast
      moreover have "hd (?rest @ ws) = hd ?rest" using False by (rule hd_append2)
      ultimately show ?thesis by (simp only: simp_thms)
    qed
    have a: "dropWhile (str_isspace e) (x @ ws) = ?d @ ws"
      using False by (simp only: dropWhile_append if_False)
    have "py_split e (x @ ws) = py_split e (dropWhile (str_isspace e) (x @ ws))"
      by (rule py_split_dropWhile [symmetric])
    also have "\<dots> = py_split e (?d @ ws)" by (simp only: a)
    also have "\<dots> = py_split e ((?tok @ ?rest) @ ws)" by (simp only: td)
    also have "\<dots> = py_split e (?tok @ (?rest @ ws))" by (simp only: append_assoc)
    also have "\<dots> = ?tok # py_split e (?rest @ ws)"
      using cut(2,3) next_ws by (rule py_split_token)
    also have "\<dots> = ?tok # py_split e ?rest" by (simp only: ih)
    also have "\<dots> = py_split e (?tok @ ?rest)"
      using cut(2,3,4) by (rule py_split_token [symmetric])
    also have "\<dots> = py_split e ?d" by (simp only: td)
    also have "\<dots> = py_split e x" by (rule py_split_dropWhile)
    finally show ?thesis .
  qed
qed

lemma py_split_py_strip: "py_split e (py_strip e s) = py_split e s"
proof -
  let ?d = "dropWhile (str_isspace e) s"
  let ?ws = "rev (takeWhile (str_isspace e) (rev ?d))"
  have "rev ?d = takeWhile (str_isspace e) (rev ?d) @ dropWhile (str_isspace e) (rev ?d)"
    by simp
  then have "rev (rev ?d) = rev (takeWhile (str_isspace e) (rev ?d) @ dropWhile (str_isspace e) (rev ?d))"
    by (rule arg_cong)
  then have d: "?d = py_strip e s @ ?ws"
    by (simp only: rev_rev_ident rev_append py_strip_def)
  have "\<forall>c\<in>set ?ws. str_isspace e c"
    using set_takeWhileD by fastforce
  then have "py_split e (py_strip e s @ ?ws) = py_split e (py_strip e s)"
    by (rule py_split_trailing)
  then have "py_split e (py_strip e s) = py_split e ?d" using d by simp
  then show ?thesis by (simp only: py_split_dropWhile)
qed

lemma py_split_first:
  assumes "dropWhile (str_isspace e) x \<noteq> []"
  shows "py_split e x
           = takeWhile (\<lambda>c. \<not> str_isspace e c) (dropWhile (str_isspace e) x)
             # py_split e (dropWhile (\<lambda>c. \<not> str_isspace e c) (dropWhile (str_isspace e) x))"
proof -
  let ?d = "dropWhile (str_isspace e) x"
  let ?tok = "takeWhile (\<lambda>c. \<not> str_isspace e c) ?d"
  let ?rest = "dropWhile (\<lambda>c. \<not> str_isspace e c) ?d"
  from assms have hd: "\<not> str_isspace e (hd ?d)" by (rule hd_dropWhile)
  note cut = token_cut [OF assms hd]
  have td: "?tok @ ?rest = ?d" by (rule takeWhile_dropWhile_id)
  have "py_split e x = py_split e ?d" by (rule py_split_dropWhile [symmetric])
  also have "\<dots> = py_split e (?tok @ ?rest)" by (simp only: td)
  also have "\<dots> = ?tok # py_split e ?rest" using cut(2,3,4) by (rule py_split_token)
  finally show ?thesis .
qed

lemma py_split_rest_shorter:
  assumes "dropWhile (str_isspace e) x \<noteq> []"
  shows "length (dropWhile (\<lambda>c. \<not> str_isspace e c) (dropWhile (str_isspace e) x)) < length x"
proof -
  let ?d = "dropWhile (str_isspace e) x"
  from assms have hd: "\<not> str_isspace e (hd ?d)" by (rule hd_dropWhile)
  have "length (dropWhile (\<lambda>c. \<not> str_isspace e c) ?d) < length ?d"
    using assms hd by (rule token_rest_shorter)
  moreover have "length ?d \<le> length x" by (rule length_dropWhile_le)
  ultimately show ?thesis by (rule less_le_trans)
qed

lemma py_split_tokens:
  "t \<in> set (py_split e s) \<Longrightarrow> t \<noteq> [] \<and> (\<forall>c\<in>set t. \<not> str_isspace e c)"
proof (induction "length s" arbitrary: s rule: less_induct)
  case less
  let ?d = "dropWhile (str_isspace e) s"
  show ?case
  proof (cases "\<forall>c\<in>set s. str_isspace e c")
    case True
    then have "py_split e s = []" by (rule py_split_spaces)
    with less.prems show ?thesis by simp
  next
    case False
    then have dne: "?d \<noteq> []" by (simp only: dropWhile_eq_Nil_conv not_False_eq_True)
    then have hd: "\<not> str_isspace e (hd ?d)" by (rule hd_dropWhile)
    let ?tok = "takeWhile (\<lambda>x. \<not> str_isspace e x) ?d"
    let ?rest = "dropWhile (\<lambda>x. \<not> str_isspace e x) ?d"
    note cut = token_cut [OF dne hd]
    have len: "length ?rest < length s" using dne by (rule py_split_rest_shorter)
    have "py_split e s = ?tok # py_split e ?rest" using dne by (rule py_split_first)
    with less.prems have "t \<in> set (?tok # py_split e ?rest)" by (simp only:)
    then have "t = ?tok \<or> t \<in> set (py_split e ?rest)" by (simp only: set_ConsD list.set insert_iff)
    then show ?thesis
    proof
      assume t: "t = ?tok"
      from cut(2,3) show ?thesis unfolding t by (rule conjI)
    next
      assume "t \<in> set (py_split e ?rest)"
      with len show ?thesis by (rule less.hyps)
    qed
  qed
qed

lemma py_split_py_join:
  "\<forall>t\<in>set ts. t \<noteq> [] \<and> (\<forall>c\<in>set t. \<not> str_isspace e c) \<Longrightarrow> str_isspace e 32 \<Longrightarrow>
   py_split e (py_join [32] ts) = ts"
proof (induction "[32::nat]" ts rule: py_join.induct)
  case 1
  show ?case by simp
next
  case (2 x)
  then have "x \<noteq> []" and "\<forall>c\<in>set x. \<not> str_isspace e c" by simp_all
  then have "py_split e (x @ []) = x # py_split e []"
    by (rule py_split_token) simp
  then show ?case by simp
next
  case (3 x y ys)
  from "3.prems" have x: "x \<noteq> []" "\<forall>c\<in>set x. \<not> str_isspace e c"
    and rest: "\<forall>t\<in>set (y # ys). t \<noteq> [] \<and> (\<forall>c\<in>set t. \<not> str_isspace e c)"
    by simp_all
  have "py_split e (x @ 32 # py_join [32] (y # ys)) = x # py_split e (32 # py_join [32] (y # ys))"
    using x by (rule py_split_token) (simp add: "3.prems"(2))
  also have "py_split e (32 # py_join [32] (y # ys)) = py_split e (py_join [32] (y # ys))"
    using "3.prems"(2) by (rule py_split_skip)
  also have "\<dots> = y # ys" using rest "3.prems"(2) by (rule "3.hyps")
  finally show ?case by simp
qed

subsubsection \<open>Stripping and collapsing\<close>

lemma last_dropWhile:
  assumes "dropWhile P xs \<noteq> []"
  shows "last (dropWhile P xs) = last xs"
proof -
  have "xs = takeWhile P xs @ dropWhile P xs" by simp
  then have "last xs = last (takeWhile P xs @ dropWhile P xs)" by simp
  also have "\<dots> = last (dropWhile P xs)" using assms by (rule last_appendR)
  finally show ?thesis by simp
qed

lemma py_strip_trimmed:
  assumes "py_strip e s \<noteq> []"
  shows "\<not> str_isspace e (hd (py_strip e s)) \<and> \<not> str_isspace e (last (py_strip e s))"
proof -
  let ?u = "dropWhile (str_isspace e) s"
  let ?v = "dropWhile (str_isspace e) (rev ?u)"
  from assms have v: "?v \<noteq> []" by (simp add: py_strip_def)
  have u: "?u \<noteq> []"
  proof
    assume "?u = []"
    then have "?v = []" by (simp only: rev.simps dropWhile.simps)
    with v show False ..
  qed
  from v have "\<not> str_isspace e (hd ?v)" by (rule hd_dropWhile)
  then have l: "\<not> str_isspace e (last (rev ?v))" using v by (simp add: last_rev)
  have "last ?v = last (rev ?u)" using v by (rule last_dropWhile)
  also have "\<dots> = hd ?u" using u by (simp add: last_rev)
  finally have "hd (rev ?v) = hd ?u" using v by (simp add: hd_rev)
  moreover from u have "\<not> str_isspace e (hd ?u)" by (rule hd_dropWhile)
  ultimately show ?thesis using l by (simp add: py_strip_def)
qed

lemma re_sub_ws_token:
  "\<forall>c\<in>set tok. \<not> str_isspace e c \<Longrightarrow> re_sub_ws e (tok @ r) = tok @ re_sub_ws e r"
  by (induction tok) simp_all

lemma re_sub_ws_spaces:
  assumes "ws \<noteq> []" and "\<forall>c\<in>set ws. str_isspace e c" and "y = [] \<or> \<not> str_isspace e (hd y)"
  shows "re_sub_ws e (ws @ y) = 32 # re_sub_ws e y"
proof -
  from assms(1) obtain w ws' where ws: "ws = w # ws'" by (cases ws) auto
  with assms(2) have w: "str_isspace e w" and ws': "\<forall>c\<in>set ws'. str_isspace e c" by simp_all
  have "dropWhile (str_isspace e) y = y"
    using assms(3) by (cases y) simp_all
  with ws' have "dropWhile (str_isspace e) (ws' @ y) = y"
    by (simp add: dropWhile_append)
  with w show ?thesis by (simp add: ws)
qed

text \<open>Lower-casing and collapsing a text without trailing whitespace, token by token.\<close>

lemma collapse_tokens:
  assumes tb: "str_tables_ok e"
  shows "x = [] \<or> \<not> str_isspace e (last x) \<Longrightarrow>
         re_sub_ws e (str_lower e (dropWhile (str_isspace e) x))
           = py_join [32] (map (str_lower e) (py_split e x))"
proof (induction "length x" arbitrary: x rule: less_induct)
  case less
  let ?d = "dropWhile (str_isspace e) x"
  show ?case
  proof (cases "\<forall>c\<in>set x. str_isspace e c")
    case True
    then have 1: "py_split e x = []" by (rule py_split_spaces)
    from True have 2: "?d = []" by (simp only: dropWhile_eq_Nil_conv)
    show ?thesis
      unfolding 1 2 by (simp add: tables_lower_Nil [OF tb])
  next
    case False
    then have dne: "?d \<noteq> []" by (simp only: dropWhile_eq_Nil_conv not_False_eq_True)
    from False have x: "x \<noteq> []" by auto
    with less.prems have lastx: "\<not> str_isspace e (last x)" by blast
    from dne have hd: "\<not> str_isspace e (hd ?d)" by (rule hd_dropWhile)
    let ?tok = "takeWhile (\<lambda>x. \<not> str_isspace e x) ?d"
    let ?rest = "dropWhile (\<lambda>x. \<not> str_isspace e x) ?d"
    note cut = token_cut [OF dne hd]
    from tables_lower_token [OF tb cut(2,3)]
    have low: "\<forall>c\<in>set (str_lower e ?tok). \<not> str_isspace e c" by (rule conjunct2)
    have td: "?tok @ ?rest = ?d" by (rule takeWhile_dropWhile_id)
    have len: "length ?rest < length x" using dne by (rule py_split_rest_shorter)
    have split: "py_split e x = ?tok # py_split e ?rest" using dne by (rule py_split_first)
    have "str_lower e (?tok @ ?rest) = str_lower e ?tok @ str_lower e ?rest"
      using tb cut(4) by (rule lower_token_rest)
    then have lower: "str_lower e ?d = str_lower e ?tok @ str_lower e ?rest"
      by (simp only: td)
    show ?thesis
    proof (cases "?rest = []")
      case True
      have "re_sub_ws e (str_lower e ?tok @ []) = str_lower e ?tok @ re_sub_ws e []"
        using low by (rule re_sub_ws_token)
      then have "re_sub_ws e (str_lower e ?tok) = str_lower e ?tok"
        by (simp only: append_Nil2 re_sub_ws.simps)
      moreover have "str_lower e ?d = str_lower e ?tok"
        unfolding lower True by (simp only: tables_lower_Nil [OF tb] append_Nil2)
      ultimately have lhs: "re_sub_ws e (str_lower e ?d) = str_lower e ?tok"
        by (simp only:)
      have "py_split e ?rest = py_split e []" by (simp only: True)
      then have rest: "py_split e ?rest = []" by (simp only: py_split_Nil)
      show ?thesis
        unfolding lhs split rest by (simp only: list.map py_join.simps)
    next
      case rest: False
      have "last ?d = last x" using dne by (rule last_dropWhile)
      moreover have "last ?rest = last ?d" using rest by (rule last_dropWhile)
      ultimately have "last ?rest = last x" by (rule trans [OF _ _, rotated])
      with lastx have lr: "\<not> str_isspace e (last ?rest)" by (simp only: not_False_eq_True)
      then have lastr: "?rest = [] \<or> \<not> str_isspace e (last ?rest)" by (rule disjI2)
      let ?ws = "takeWhile (str_isspace e) ?rest"
      let ?y = "dropWhile (str_isspace e) ?rest"
      have wy: "?ws @ ?y = ?rest" by (rule takeWhile_dropWhile_id)
      from rest cut(4) have hdr: "str_isspace e (hd ?rest)" by blast
      have wsne: "?ws \<noteq> []"
      proof -
        from rest obtain w r where r: "?rest = w # r" by (cases ?rest) blast+
        with hdr have "str_isspace e w" by (simp only: list.sel)
        then have "takeWhile (str_isspace e) (w # r) \<noteq> []" by simp
        then show ?thesis unfolding r .
      qed
      have wssp: "\<forall>c\<in>set ?ws. str_isspace e c"
        using set_takeWhileD by fastforce
      have yne: "?y \<noteq> []"
      proof
        assume "?y = []"
        then have "\<forall>c\<in>set ?rest. str_isspace e c" by (simp only: dropWhile_eq_Nil_conv)
        moreover have "last ?rest \<in> set ?rest" using rest by (rule last_in_set)
        ultimately have "str_isspace e (last ?rest)" by blast
        with lr show False by blast
      qed
      then have hdy: "\<not> str_isspace e (hd ?y)" by (rule hd_dropWhile)
      from lower_starts_token [OF tb yne hdy]
      have ly: "str_lower e ?y = [] \<or> \<not> str_isspace e (hd (str_lower e ?y))" by blast
      have "str_lower e (?ws @ ?y) = ?ws @ str_lower e ?y"
        using tb wssp by (rule lower_spaces_prefix)
      then have lrest: "str_lower e ?rest = ?ws @ str_lower e ?y" by (simp only: wy)
      have "re_sub_ws e (str_lower e ?tok @ (?ws @ str_lower e ?y))
              = str_lower e ?tok @ re_sub_ws e (?ws @ str_lower e ?y)"
        using low by (rule re_sub_ws_token)
      then have "re_sub_ws e (str_lower e ?d)
              = str_lower e ?tok @ re_sub_ws e (?ws @ str_lower e ?y)"
        by (simp only: lower lrest)
      also have "re_sub_ws e (?ws @ str_lower e ?y) = 32 # re_sub_ws e (str_lower e ?y)"
        using wsne wssp ly by (rule re_sub_ws_spaces)
      also have "re_sub_ws e (str_lower e ?y) = py_join [32] (map (str_lower e) (py_split e ?rest))"
        using len lastr by (rule less.hyps)
      finally have lhs: "re_sub_ws e (str_lower e ?d)
          = str_lower e ?tok @ 32 # py_join [32] (map (str_lower e) (py_split e ?rest))" .
      have "py_split e ?rest
              = takeWhile (\<lambda>c. \<not> str_isspace e c) ?y
                # py_split e (dropWhile (\<lambda>c. \<not> str_isspace e c) ?y)"
        using yne by (rule py_split_first)
      then obtain t ts where ts: "py_split e ?rest = t # ts" by blast
      show ?thesis
        unfolding lhs split ts by (simp only: list.map py_join.simps append_Cons append_Nil)
    qed
  qed
qed

text \<open>The normal form: the tokens of the text, each lower-cased, joined by single spaces.\<close>

lemma normal_form_tokens:
  assumes "str_tables_ok e"
  shows "re_sub_ws e (str_lower e (py_strip e s)) = py_join [32] (map (str_lower e) (py_split e s))"
proof -
  let ?x = "py_strip e s"
  have trimmed: "?x = [] \<or> \<not> str_isspace e (last ?x)"
    using py_strip_trimmed [of e s] by blast
  have "dropWhile (str_isspace e) ?x = ?x"
    using py_strip_trimmed [of e s] by (cases ?x) auto
  with collapse_tokens [OF assms trimmed]
  have "re_sub_ws e (str_lower e ?x) = py_join [32] (map (str_lower e) (py_split e ?x))"
    by simp
  then show ?thesis by (simp only: py_split_py_strip)
qed

lemma normal_form_fixed:
  fixes e :: env and s :: ustring
  assumes "str_tables_ok e"
  defines "r \<equiv> re_sub_ws e (str_lower e (py_strip e s))"
  shows "re_sub_ws e (str_lower e (py_strip e r)) = r"
proof -
  let ?ts = "map (str_lower e) (py_split e s)"
  have r: "r = py_join [32] ?ts"
    unfolding r_def using assms(1) by (rule normal_form_tokens)
  have toks: "\<forall>t\<in>set ?ts. t \<noteq> [] \<and> (\<forall>c\<in>set t. \<not> str_isspace e c)"
  proof
    fix t assume "t \<in> set ?ts"
    then obtain u where u: "u \<in> set (py_split e s)" and t: "t = str_lower e u" by auto
    from py_split_tokens [OF u] have "u \<noteq> []" and "\<forall>c\<in>set u. \<not> str_isspace e c" by blast+
    with tables_lower_token [OF assms(1)] show "t \<noteq> [] \<and> (\<forall>c\<in>set t. \<not> str_isspace e c)"
      unfolding t by blast
  qed
  have split: "py_split e r = ?ts"
    unfolding r using toks tables_space [OF assms(1)] by (rule py_split_py_join)
  have "re_sub_ws e (str_lower e (py_strip e r)) = py_join [32] (map (str_lower e) (py_split e r))"
    using assms(1) by (rule normal_form_tokens)
  also have "\<dots> = py_join [32] (map (str_lower e) ?ts)" by (simp only: split)
  also have "map (str_lower e) ?ts = ?ts"
    using tables_lower_idem [OF assms(1)] by simp
  finally show ?thesis by (simp only: r)
qed
subsection \<open>Progress ticks\<close>







subsection \<open>Decisions for exact and for empty texts\<close>

lemma run_context_fields:
  "c_env (run_context e L R lo ro lm rm thr incl pr cb ue) = e"
  "c_threshold (run_context e L R lo ro lm rm thr incl pr cb ue) = thr"
  "c_include_unmatched (run_context e L R lo ro lm rm thr incl pr cb ue) = incl"
  "c_right_output_cols (run_context e L R lo ro lm rm thr incl pr cb ue) = ro"
  "c_left_output_records (run_context e L R lo ro lm rm thr incl pr cb ue) = output_records L lo"
  "c_right_output_records (run_context e L R lo ro lm rm thr incl pr cb ue) = output_records R ro"
  by (simp_all add: run_context_def loop_context_def)

lemma run_context_indexes:
  assumes "lm \<noteq> []" "rm \<noteq> []"
  shows "c_exact_index (run_context e L R lo ro lm rm thr incl pr cb ue)
           = build_exact_index (text_values e R rm)"
    and "c_token_index (run_context e L R lo ro lm rm thr incl pr cb ue)
           = build_token_index e (text_values e R rm)"
    and "c_right_text_values (run_context e L R lo ro lm rm thr incl pr cb ue) = text_values e R rm"
  using assms by (simp_all add: run_context_def loop_context_def)

lemma decide_empty_text:
  assumes "set_iter_ok (c_env cx)" and "c_exact_index cx [] = None"
  shows "decide cx [] = (0, None)"
proof -
  have "candidate_positions (c_env cx) (c_token_index cx) [] = {}"
    by (simp add: candidate_positions_def)
  with assms show ?thesis
    by (simp add: decide_def set_iter_empty scan_best_def)
qed

lemma decide_exact:
  assumes idx: "c_exact_index cx = build_exact_index texts"
    and t: "t \<noteq> []" "t \<in> set texts"
  shows "fst (decide cx t) = 1"
    and "\<exists>j. snd (decide cx t) = Some j \<and> j < length texts \<and> texts ! j = t
             \<and> (\<forall>k<j. texts ! k \<noteq> t)"
    and "row_exact cx t = 1" and "row_comparisons cx t = 0"
proof -
  let ?ps = "filter (\<lambda>p. texts ! p = t) [0..<length texts]"
  from idx t have some: "c_exact_index cx t = Some ?ps"
    by (simp add: build_exact_index_eq)
  from some show "fst (decide cx t) = 1" "row_exact cx t = 1" "row_comparisons cx t = 0"
    by (simp_all add: decide_def row_exact_def row_comparisons_def)
  from t(2) obtain i where "i < length texts" "texts ! i = t"
    by (auto simp: in_set_conv_nth)
  then have ne: "?ps \<noteq> []" by (auto simp: filter_empty_conv)
  from some have "snd (decide cx t) = Some (hd ?ps)" by (simp add: decide_def)
  with hd_filter_upt [OF ne]
  show "\<exists>j. snd (decide cx t) = Some j \<and> j < length texts \<and> texts ! j = t
             \<and> (\<forall>k<j. texts ! k \<noteq> t)"
    by blast
qed

subsection \<open>The fields of a result in the similarity mode\<close>

lemma run_matching_enabled_fields:
  fixes e L R lo ro lm rm thr incl pr cb ue
  defines "cx \<equiv> run_context e L R lo ro lm rm thr incl pr cb ue"
  assumes c: "input_contract e L R lo ro lm rm cb ue" and en: "lm \<noteq> []" "rm \<noteq> []"
  shows "\<exists>res calls. run_matching e L R lo ro lm rm thr incl pr cb ue = Inr (res, calls)
     \<and> left_text res = Series (text_values e L lm) \<and> right_text res = Series (text_values e R rm)
     \<and> best_scores res = map (\<lambda>t. fst (decide cx t)) (text_values e L lm)
     \<and> best_positions res = map (\<lambda>t. snd (decide cx t)) (text_values e L lm)
     \<and> exact_match_count res = sum_list (map (row_exact cx) (text_values e L lm))
     \<and> candidate_comparisons res = sum_list (map (row_comparisons cx) (text_values e L lm))
     \<and> result_df res =
         concat (map (\<lambda>(i, t). emitted cx i (decide cx t)) (enumerate 0 (text_values e L lm)))
     \<and> length (text_values e L lm) = length (df_rows L)
     \<and> length (text_values e R rm) = length (df_rows R)
     \<and> ctx_ok cx"
proof -
  from c en have out: "output_selection_ok L R lo ro" and iv: "interval_ok cb ue"
    and mt: "match_selection_ok L R lm rm" and it: "set_iter_ok e"
    and rows: "df_rows L \<noteq> []" "df_rows R \<noteq> []"
    by (simp_all add: input_contract_def)
  from mt have n: "length (text_values e L lm) = length (df_rows L)"
    and m: "length (text_values e R rm) = length (df_rows R)"
    by (simp_all add: match_selection_ok_def length_text_values)
  from out mt have ok: "ctx_ok cx"
    unfolding cx_def
    by (intro run_context_ok it iv en) (simp_all add: output_selection_ok_def match_selection_ok_def)
  show ?thesis
    unfolding run_matching_enabled_eq [OF en out mt iv it rows] cx_def [symmetric]
    using n m ok by simp
qed

lemma set_py_join: "set (py_join sep xs) \<subseteq> set sep \<union> \<Union> (set ` set xs)"
  by (induction sep xs rule: py_join.induct) auto

lemma py_strip_blank:
  assumes "\<forall>c\<in>set s. str_isspace e c"
  shows "py_strip e s = []"
proof -
  from assms have d: "dropWhile (str_isspace e) s = []" by simp
  show ?thesis unfolding py_strip_def d by simp
qed

lemma blank_cells_text:
  assumes "str_tables_ok e" and "\<forall>c\<in>set cols. r c = Null \<or> r c = Str []"
  shows "normalize_text e (Str (py_join [32] (map (\<lambda>c. fillna_astype_str (r c)) cols))) = []"
proof -
  let ?s = "py_join [32] (map (\<lambda>c. fillna_astype_str (r c)) cols)"
  have "\<forall>x\<in>set (map (\<lambda>c. fillna_astype_str (r c)) cols). x = []"
    using assms(2) by auto
  with set_py_join [of "[32]" "map (\<lambda>c. fillna_astype_str (r c)) cols"]
  have sp: "\<forall>c\<in>set ?s. c = 32" by auto
  have "\<forall>c\<in>set ?s. str_isspace e c"
  proof
    fix c
    assume "c \<in> set ?s"
    with sp have "c = 32" by blast
    then show "str_isspace e c" using tables_space [OF assms(1)] by simp
  qed
  then have "py_strip e ?s = []" by (rule py_strip_blank)
  then show ?thesis by (simp add: tables_lower_Nil [OF assms(1)])
qed

lemma nth_text_values:
  "cols \<noteq> [] \<Longrightarrow> has_columns df cols \<Longrightarrow> i < length (df_rows df) \<Longrightarrow>
   text_values e df cols ! i =
     normalize_text e (Str (py_join [32] (map (\<lambda>c. fillna_astype_str ((df_rows df ! i) c)) cols)))"
  by (auto simp: text_values_def combine_columns_def)

subsection \<open>Counting exact matches\<close>

lemma sum_list_indicator:
  "sum_list (map (\<lambda>x. if P x then 1 else 0) xs) = length (filter P xs)"
  by (induction xs) simp_all

lemma row_exact_indexed:
  "c_exact_index cx = build_exact_index texts \<Longrightarrow>
   row_exact cx = (\<lambda>t. if t \<noteq> [] \<and> t \<in> set texts then 1 else 0)"
  by (simp add: row_exact_def build_exact_index_eq fun_eq_iff)

subsection \<open>Counting comparisons\<close>

lemma sum_list_skip:
  "sum_list (map (\<lambda>x. if P x then 0 else g x) xs) =
     (\<Sum>i\<in>{i. i < length xs \<and> \<not> P (xs ! i)}. g (xs ! i))"
proof -
  have "sum_list (map (\<lambda>x. if P x then 0 else g x) xs) =
      (\<Sum>i = 0..<length xs. if \<not> P (xs ! i) then g (xs ! i) else 0)"
    by (simp add: sum_list_sum_nth) (rule sum.cong, simp_all)
  also have "\<dots> = (\<Sum>i\<in>{i \<in> {0..<length xs}. \<not> P (xs ! i)}. g (xs ! i))"
    by (rule sum.inter_filter [symmetric]) simp
  also have "{i \<in> {0..<length xs}. \<not> P (xs ! i)} = {i. i < length xs \<and> \<not> P (xs ! i)}"
    by auto
  finally show ?thesis .
qed

lemma row_comparisons_indexed:
  assumes "c_exact_index cx = build_exact_index texts"
    and "c_token_index cx = build_token_index e texts" and "c_env cx = e"
  shows "row_comparisons cx =
     (\<lambda>t. if build_exact_index texts t \<noteq> None then 0
          else card (\<Union>token\<in>set (py_split e t). build_token_index e texts token))"
  using assms
  by (auto simp: row_comparisons_def candidate_positions_def fun_eq_iff split: option.splits)

subsection \<open>Dictionaries as association lists\<close>

lemma map_of_fold_update:
  "map_of (fold (\<lambda>c d. AList.update c (r c) d) cols d0) k =
     (if k \<in> set cols then Some (r k) else map_of d0 k)"
  by (induction cols arbitrary: d0) (simp_all add: update_conv')

lemma keys_fold_update:
  "fst ` set (fold (\<lambda>c d. AList.update c (r c) d) cols d0) = set cols \<union> fst ` set d0"
  by (induction cols arbitrary: d0) (auto simp: dom_update)

lemma distinct_fold_update:
  "distinct (map fst d0) \<Longrightarrow> distinct (map fst (fold (\<lambda>c d. AList.update c (r c) d) cols d0))"
  by (induction cols arbitrary: d0) (simp_all add: distinct_update)

lemma add_prefixed_Cons:
  "add_prefixed pre ((c, v) # rec) row = add_prefixed pre rec (AList.update (pre @ c) (Cell v) row)"
  by (simp add: add_prefixed_def)

lemma add_prefixed_Nil [simp]: "add_prefixed pre [] row = row"
  by (simp add: add_prefixed_def)

lemma keys_add_prefixed:
  "fst ` set (add_prefixed pre rec row) = (\<lambda>c. pre @ c) ` fst ` set rec \<union> fst ` set row"
proof (induction rec arbitrary: row)
  case Nil
  show ?case by simp
next
  case (Cons p rec)
  obtain c v where p: "p = (c, v)" by (cases p)
  show ?case
    unfolding p add_prefixed_Cons Cons.IH by (auto simp: dom_update)
qed

lemma map_of_add_prefixed_other:
  "k \<notin> (\<lambda>c. pre @ c) ` fst ` set rec \<Longrightarrow> map_of (add_prefixed pre rec row) k = map_of row k"
proof (induction rec arbitrary: row)
  case Nil
  show ?case by simp
next
  case (Cons p rec)
  obtain c v where p: "p = (c, v)" by (cases p)
  from Cons.prems have k: "k \<noteq> pre @ c" and rest: "k \<notin> (\<lambda>c. pre @ c) ` fst ` set rec"
    by (auto simp: p)
  show ?case
    unfolding p add_prefixed_Cons Cons.IH [OF rest] using k by (simp add: update_conv')
qed

lemma map_of_add_prefixed:
  "distinct (map fst rec) \<Longrightarrow> map_of rec c = Some v \<Longrightarrow>
   map_of (add_prefixed pre rec row) (pre @ c) = Some (Cell v)"
proof (induction rec arbitrary: row)
  case Nil
  then show ?case by simp
next
  case (Cons p rec)
  obtain c' v' where p: "p = (c', v')" by (cases p)
  from Cons.prems(1) have d: "distinct (map fst rec)" and fresh: "c' \<notin> fst ` set rec"
    by (simp_all add: p)
  show ?case
  proof (cases "c' = c")
    case True
    with Cons.prems(2) have v: "v' = v" by (simp add: p)
    from fresh True have "pre @ c \<notin> (\<lambda>c. pre @ c) ` fst ` set rec" by auto
    then show ?thesis
      unfolding p add_prefixed_Cons True v
      by (simp add: map_of_add_prefixed_other update_conv')
  next
    case False
    with Cons.prems(2) have "map_of rec c = Some v" by (simp add: p)
    with d show ?thesis
      unfolding p add_prefixed_Cons by (rule Cons.IH)
  qed
qed

lemma map_of_add_missing:
  "map_of (add_missing pre cols row) k =
     (if k \<in> (\<lambda>c. pre @ c) ` set cols then Some (Cell Null) else map_of row k)"
  unfolding add_missing_def
  by (induction cols arbitrary: row) (auto simp: update_conv')

lemma keys_add_missing:
  "fst ` set (add_missing pre cols row) = (\<lambda>c. pre @ c) ` set cols \<union> fst ` set row"
  unfolding add_missing_def
  by (induction cols arbitrary: row) (auto simp: dom_update)

subsection \<open>The fields of an output row\<close>

lemma prefixes_differ [simp]:
  "''Left_'' @ c \<noteq> ''Right_'' @ c'" "''Right_'' @ c' \<noteq> ''Left_'' @ c"
  "''Similarity_Score'' \<noteq> ''Left_'' @ c" "''Similarity_Score'' \<noteq> ''Right_'' @ c"
  "''Match_Status'' \<noteq> ''Left_'' @ c" "''Match_Status'' \<noteq> ''Right_'' @ c"
  by simp_all

lemma map_of_add_prefixed_record:
  assumes "c \<in> set cols"
  shows "map_of (add_prefixed pre (fold (\<lambda>c d. AList.update c (r c) d) cols []) row) (pre @ c)
           = Some (Cell (r c))"
proof (rule map_of_add_prefixed)
  show "distinct (map fst (fold (\<lambda>c d. AList.update c (r c) d) cols []))"
    by (rule distinct_fold_update) simp
  show "map_of (fold (\<lambda>c d. AList.update c (r c) d) cols []) c = Some (r c)"
    using assms by (simp add: map_of_fold_update)
qed

lemma keys_add_prefixed_record:
  "fst ` set (add_prefixed pre (fold (\<lambda>c d. AList.update c (r c) d) cols []) row)
     = (\<lambda>c. pre @ c) ` set cols \<union> fst ` set row"
  by (simp add: keys_add_prefixed keys_fold_update)

lemma carries_columns_right_fields:
  assumes lrec: "lrec = fold (\<lambda>c d. AList.update c (lrow c) d) lo []"
    and rrec: "b \<Longrightarrow> c_right_output_records cx ! j = fold (\<lambda>c d. AList.update c (rrow c) d) ro []"
    and cols: "c_right_output_cols cx = ro"
  shows "carries_columns lo lrow ro (if b then Some rrow else None) {}
           (right_fields cx b j (add_prefixed ''Left_'' lrec []))"
proof -
  let ?base = "add_prefixed ''Left_'' lrec []"
  let ?row = "right_fields cx b j ?base"
  have base_keys: "fst ` set ?base = (\<lambda>c. ''Left_'' @ c) ` set lo"
    unfolding lrec by (simp add: keys_add_prefixed_record)
  have base_left: "\<forall>c\<in>set lo. map_of ?base (''Left_'' @ c) = Some (Cell (lrow c))"
    unfolding lrec by (intro ballI map_of_add_prefixed_record)
  show ?thesis
  proof (cases b)
    case True
    then have row: "?row = add_prefixed ''Right_'' (fold (\<lambda>c d. AList.update c (rrow c) d) ro []) ?base"
      by (simp add: right_fields_def rrec)
    have 1: "\<forall>c\<in>set lo. map_of ?row (''Left_'' @ c) = Some (Cell (lrow c))"
    proof
      fix c
      assume c: "c \<in> set lo"
      have "''Left_'' @ c \<notin> (\<lambda>c. ''Right_'' @ c) ` fst ` set (fold (\<lambda>c d. AList.update c (rrow c) d) ro [])"
        by auto
      then have "map_of ?row (''Left_'' @ c) = map_of ?base (''Left_'' @ c)"
        unfolding row by (rule map_of_add_prefixed_other)
      with base_left c show "map_of ?row (''Left_'' @ c) = Some (Cell (lrow c))" by simp
    qed
    have 2: "\<forall>c\<in>set ro. map_of ?row (''Right_'' @ c) = Some (Cell (rrow c))"
      unfolding row by (intro ballI map_of_add_prefixed_record)
    have 3: "fst ` set ?row = (\<lambda>c. ''Left_'' @ c) ` set lo \<union> (\<lambda>c. ''Right_'' @ c) ` set ro"
      unfolding row keys_add_prefixed_record base_keys by blast
    from 1 2 3 True show ?thesis by (simp add: carries_columns_def)
  next
    case False
    then have row: "?row = add_missing ''Right_'' ro ?base"
      by (simp add: right_fields_def cols)
    have 1: "\<forall>c\<in>set lo. map_of ?row (''Left_'' @ c) = Some (Cell (lrow c))"
      unfolding row map_of_add_missing using base_left by auto
    have 2: "\<forall>c\<in>set ro. map_of ?row (''Right_'' @ c) = Some (Cell Null)"
      unfolding row map_of_add_missing by simp
    have 3: "fst ` set ?row = (\<lambda>c. ''Left_'' @ c) ` set lo \<union> (\<lambda>c. ''Right_'' @ c) ` set ro"
      unfolding row keys_add_missing base_keys by blast
    from 1 2 3 False show ?thesis by (simp add: carries_columns_def)
  qed
qed


lemma carries_columns_no_score:
  assumes "carries_columns lo lrow ro rrow {} row"
  shows "map_of row ''Similarity_Score'' = None \<and> map_of row ''Match_Status'' = None"
proof -
  from assms have keys: "fst ` set row =
      (\<lambda>c. ''Left_'' @ c) ` set lo \<union> (\<lambda>c. ''Right_'' @ c) ` set ro"
    by (simp add: carries_columns_def)
  have "''Similarity_Score'' \<notin> fst ` set row" "''Match_Status'' \<notin> fst ` set row"
    unfolding keys by auto
  then show ?thesis by (simp add: map_of_eq_None_iff)
qed

subsection \<open>Rows of the positional merge\<close>

lemma merge_step_cong:
  assumes "c_left_output_records cx' = c_left_output_records cx"
    and "c_right_output_records cx' = c_right_output_records cx"
    and "c_right_output_cols cx' = c_right_output_cols cx"
    and "c_include_unmatched cx' = c_include_unmatched cx"
    and "c_progress_callback cx' = c_progress_callback cx"
    and "c_progress_update_every cx' = c_progress_update_every cx"
    and "c_total_rows cx' = c_total_rows cx"
  shows "merge_step cx' = merge_step cx"
  unfolding merge_step_def progress_tick_def assms ..

lemma merge_step_inert:
  "merge_step (loop_context e rtexts lrecs rrecs ro thr' incl pr' cb ue n)
     = merge_step (loop_context e rtexts lrecs rrecs ro thr incl pr cb ue n)"
  by (rule merge_step_cong) (simp_all add: loop_context_def)

lemma run_matching_disabled_inert:
  assumes "lm = [] \<or> rm = []"
  shows "run_matching e L R lo ro lm rm thr' incl pr' cb ue
           = run_matching e L R lo ro lm rm thr incl pr cb ue"
proof -
  have off: "(lm \<noteq> [] \<and> rm \<noteq> []) = False"
    using assms by auto
  show ?thesis
    unfolding run_matching_def Let_def off if_False not_False_eq_True if_True
    by (simp only: merge_step_inert [of e _ _ _ ro thr' incl pr' cb ue _ thr pr])
qed

lemma positional_rows:
  fixes e L R lo ro lm rm thr incl pr cb ue
  defines "cx \<equiv> run_context e L R lo ro lm rm thr incl pr cb ue"
  defines "row_at \<equiv> \<lambda>i. right_fields cx (i < length (df_rows R)) i
                          (add_prefixed ''Left_'' (output_records L lo ! i) [])"
  assumes out: "output_selection_ok L R lo ro"
  shows "merged cx = (\<lambda>i. if i < length (df_rows R) \<or> incl then [row_at i] else [])"
    and "\<forall>i<length (df_rows L).
           carries_columns lo (df_rows L ! i) ro
             (if i < length (df_rows R) then Some (df_rows R ! i) else None) {} (row_at i)"
proof -
  from out have lo: "has_columns L lo" "lo \<noteq> []" and ro: "has_columns R ro" "ro \<noteq> []"
    by (simp_all add: output_selection_ok_def)
  have m: "length (c_right_output_records cx) = length (df_rows R)"
    by (simp add: cx_def run_context_fields length_output_records [OF ro])
  have inc: "c_include_unmatched cx = incl"
    and lrecs: "c_left_output_records cx = output_records L lo"
    by (simp_all add: cx_def run_context_fields)
  show "merged cx = (\<lambda>i. if i < length (df_rows R) \<or> incl then [row_at i] else [])"
  proof (rule ext)
    fix i
    show "merged cx i = (if i < length (df_rows R) \<or> incl then [row_at i] else [])"
      unfolding merged_def m inc lrecs row_at_def ..
  qed
  show "\<forall>i<length (df_rows L).
           carries_columns lo (df_rows L ! i) ro
             (if i < length (df_rows R) then Some (df_rows R ! i) else None) {} (row_at i)"
  proof (intro allI impI)
    fix i
    assume i: "i < length (df_rows L)"
    show "carries_columns lo (df_rows L ! i) ro
             (if i < length (df_rows R) then Some (df_rows R ! i) else None) {} (row_at i)"
      unfolding row_at_def
    proof (rule carries_columns_right_fields)
      show "output_records L lo ! i = fold (\<lambda>c d. AList.update c ((df_rows L ! i) c) d) lo []"
        using lo i by (rule nth_output_records)
      show "c_right_output_cols cx = ro"
        by (simp add: cx_def run_context_fields)
      assume "i < length (df_rows R)"
      with ro show "c_right_output_records cx ! i
          = fold (\<lambda>c d. AList.update c ((df_rows R ! i) c) d) ro []"
        by (simp add: cx_def run_context_fields nth_output_records)
    qed
  qed
qed

subsection \<open>Rounding and list facts\<close>





subsection \<open>Rows of the similarity mode\<close>


section \<open>The claims\<close>

subsection \<open>The exact index\<close>

text \<open>
  C2, as the specification has it: the exact index skips no row, so right rows with an empty
  text are keyed under the empty text and a left row with an empty text matches the first
  of them with score 1.0. The code skips them (\<open>if text:\<close> in \<open>build_exact_index\<close>): for a
  right frame whose only row has an empty text the index has no key, and the decision
  for an empty left text is score 0 and no position, with both counters unchanged.
\<close>

theorem empty_text_keyed_counterexample:
  "text_values example_env blank_right [''name''] = [[]]
   \<and> build_exact_index (text_values example_env blank_right [''name'']) [] = None
   \<and> match_row (run_context example_env blank_left blank_right [''name''] [''name'']
                   [''name''] [''name''] (1 / 2) True False False None) [] 0 0
       = Inr (0, None, 0, 0)"
  by code_simp

text \<open>
  C2, amended: the exact index maps every non-empty text of a right row to the positions of
  the right rows with that text, in ascending order; the empty text is never a key, so a
  left row with an empty text never takes the exact path: its counters are unchanged and
  it has score 0 and no position.
\<close>

theorem exact_index_skips_empty_text:
  "build_exact_index texts [] = None
   \<and> (t \<noteq> [] \<longrightarrow>
        build_exact_index texts t =
          (if t \<in> set texts then Some (filter (\<lambda>p. texts ! p = t) [0..<length texts]) else None))
   \<and> (c_exact_index cx = build_exact_index (c_right_text_values cx) \<longrightarrow>
        match_row cx [] exact_count comparisons = Inr (0, None, exact_count, comparisons))"
  by (simp add: build_exact_index_eq match_row_def)

theorem exact_index_skips_empty_text_witness:
  "build_exact_index [lit ''abc'', [], lit ''abc''] [] = None
   \<and> build_exact_index [lit ''abc'', [], lit ''abc''] (lit ''abc'') = Some [0, 2]
   \<and> match_row (run_context example_env blank_left blank_right [''name''] [''name'']
                   [''name''] [''name''] (1 / 2) True False False None) [] 3 5
       = Inr (0, None, 3, 5)"
  using exact_index_skips_empty_text [of "[lit ''abc'', [], lit ''abc'']" "lit ''abc''"
      "run_context example_env blank_left blank_right [''name''] [''name'']
         [''name''] [''name''] (1 / 2) True False False None" 3 5]
  by (simp add: run_context_def loop_context_def lit_def)

subsection \<open>The positional merge\<close>

text \<open>
  C10: when either match-column selection is empty, every result of \<open>run_matching\<close> has
  empty \<open>best_scores\<close> and \<open>best_positions\<close>, both counters at 0, the engine
  \<open>"disabled"\<close> and no match columns used, whatever the frames and the parameters; and
  the run does return when the output selections name columns and the interval is not 0.
\<close>

theorem disabled_result_is_empty:
  assumes "lm = [] \<or> rm = []"
  shows "(\<forall>res calls. run_matching e L R lo ro lm rm thr incl pr cb ue = Inr (res, calls) \<longrightarrow>
            best_scores res = [] \<and> best_positions res = []
            \<and> exact_match_count res = 0 \<and> candidate_comparisons res = 0
            \<and> similarity_engine res = ''disabled'' \<and> \<not> similarity_enabled res
            \<and> left_match_columns_used res = [] \<and> right_match_columns_used res = [])
         \<and> (output_selection_ok L R lo ro \<and> interval_ok cb ue \<longrightarrow>
              (\<exists>res calls. run_matching e L R lo ro lm rm thr incl pr cb ue = Inr (res, calls)))"
proof (rule conjI)
  have off: "(lm \<noteq> [] \<and> rm \<noteq> []) = False"
    using assms by auto
  show "\<forall>res calls. run_matching e L R lo ro lm rm thr incl pr cb ue = Inr (res, calls) \<longrightarrow>
            best_scores res = [] \<and> best_positions res = []
            \<and> exact_match_count res = 0 \<and> candidate_comparisons res = 0
            \<and> similarity_engine res = ''disabled'' \<and> \<not> similarity_enabled res
            \<and> left_match_columns_used res = [] \<and> right_match_columns_used res = []"
    unfolding run_matching_def Let_def off if_False
    by (auto simp: bind_err_eq_Inr)
next
  show "output_selection_ok L R lo ro \<and> interval_ok cb ue \<longrightarrow>
          (\<exists>res calls. run_matching e L R lo ro lm rm thr incl pr cb ue = Inr (res, calls))"
  proof (rule impI)
    assume "output_selection_ok L R lo ro \<and> interval_ok cb ue"
    moreover have "\<not> (lm \<noteq> [] \<and> rm \<noteq> [])" using assms by auto
    ultimately show "\<exists>res calls. run_matching e L R lo ro lm rm thr incl pr cb ue = Inr (res, calls)"
      using run_matching_disabled_eq [of lm rm L R lo ro cb ue e thr incl pr] by blast
  qed
qed

theorem disabled_result_is_empty_witness:
  "([] = ([] :: string list) \<or> [''name''] = ([] :: string list))
   \<and> output_selection_ok example_left example_right [''id''] [''city''] \<and> interval_ok True None
   \<and> (\<exists>res calls.
         run_matching example_env example_left example_right [''id''] [''city''] [] [''name'']
           (3 / 4) True False True None = Inr (res, calls)
         \<and> best_scores res = [] \<and> best_positions res = []
         \<and> exact_match_count res = 0 \<and> candidate_comparisons res = 0
         \<and> similarity_engine res = ''disabled'')"
proof -
  have h: "[] = ([] :: string list) \<or> [''name''] = ([] :: string list)" by simp
  have c: "output_selection_ok example_left example_right [''id''] [''city''] \<and> interval_ok True None"
    by (simp add: output_selection_ok_def has_columns_def example_left_def example_right_def
        interval_ok_def)
  from disabled_result_is_empty [OF h, of example_env example_left example_right "[''id'']"
      "[''city'']" "3 / 4" True False True None] c
  show ?thesis by blast
qed

subsection \<open>Normalisation\<close>

text \<open>The ASCII tables of the examples satisfy what the proofs use of the Unicode tables.\<close>

lemma example_tables_ok: "str_tables_ok example_env"
proof -
  define f where "f = (\<lambda>n::nat. if 65 \<le> n \<and> n \<le> 90 then n + 32 else n)"
  have al: "ascii_lower t = map f t" for t
    by (simp add: ascii_lower_def f_def)
  have fs: "ascii_isspace (f n) = ascii_isspace n" for n
    by (auto simp: f_def ascii_isspace_def)
  have fw: "ascii_isspace w \<Longrightarrow> f w = w" for w
    by (auto simp: f_def ascii_isspace_def)
  have ff: "f (f n) = f n" for n
    by (simp add: f_def)
  have 1: "ascii_isspace 32" by (simp add: ascii_isspace_def)
  have 2: "\<forall>a w b. ascii_isspace w \<longrightarrow> ascii_lower (a @ w # b) = ascii_lower a @ w # ascii_lower b"
    by (simp add: al fw)
  have 3: "ascii_lower [] = []" by (simp add: al)
  have 4: "\<forall>t. t \<noteq> [] \<and> (\<forall>c\<in>set t. \<not> ascii_isspace c) \<longrightarrow>
             ascii_lower t \<noteq> [] \<and> (\<forall>c\<in>set (ascii_lower t). \<not> ascii_isspace c)"
    by (simp add: al fs)
  have 5: "\<forall>t. ascii_lower (ascii_lower t) = ascii_lower t"
    by (simp add: al ff)
  from 1 2 3 4 5 show ?thesis
    by (simp add: str_tables_ok_def example_env_def)
qed

text \<open>
  C8: \<open>normalize_text\<close> maps a missing value to the empty text, and any other value to the
  whitespace-separated tokens of its text (of \<open>str(value)\<close>), each lower-cased, joined by
  single spaces: leading and trailing whitespace is gone, every run of whitespace inside
  is one space, and the letters are lower-cased. Normalisation is idempotent: normalising
  the text that \<open>normalize_text\<close> returned gives that text again. Whitespace and
  lower-casing are those of the Unicode tables of the interpreter, parameters here, of
  which \<open>str_tables_ok\<close> states what is used.
\<close>

theorem normalize_text_idempotent:
  assumes "str_tables_ok e"
  shows "normalize_text e Null = []
     \<and> normalize_text e (Str s) = py_join [32] (map (str_lower e) (py_split e s))
     \<and> normalize_text e (Other s) = py_join [32] (map (str_lower e) (py_split e s))
     \<and> normalize_text e (Str (normalize_text e x)) = normalize_text e x"
proof -
  have nf: "re_sub_ws e (str_lower e (py_strip e s))
              = py_join [32] (map (str_lower e) (py_split e s))"
    using assms by (rule normal_form_tokens)
  have idem: "normalize_text e (Str (normalize_text e x)) = normalize_text e x"
  proof (cases x)
    case Null
    have "py_strip e [] = []" by (simp add: py_strip_def)
    then show ?thesis by (simp add: Null tables_lower_Nil [OF assms])
  next
    case (Str u)
    show ?thesis by (simp add: Str normal_form_fixed [OF assms])
  next
    case (Other u)
    show ?thesis by (simp add: Other normal_form_fixed [OF assms])
  qed
  from nf idem show ?thesis by simp
qed

theorem normalize_text_idempotent_witness:
  "str_tables_ok example_env
   \<and> normalize_text example_env Null = []
   \<and> normalize_text example_env (Str (lit ''  John   SMITH ''))
       = py_join [32] (map (str_lower example_env) (py_split example_env (lit ''  John   SMITH '')))
   \<and> normalize_text example_env (Str (lit ''  John   SMITH '')) = lit ''john smith''
   \<and> normalize_text example_env (Str (normalize_text example_env (Str (lit ''  John   SMITH ''))))
       = normalize_text example_env (Str (lit ''  John   SMITH ''))"
proof -
  have v: "normalize_text example_env (Str (lit ''  John   SMITH '')) = lit ''john smith''"
    by code_simp
  from normalize_text_idempotent [OF example_tables_ok, of "lit ''  John   SMITH ''"
      "Str (lit ''  John   SMITH '')"] example_tables_ok v
  show ?thesis by blast
qed
subsection \<open>Progress reporting\<close>



subsection \<open>The similarity mode\<close>

text \<open>
  When both frames have a row, a run in the similarity mode under the input contract
  returns, and every left row whose normalised text is empty has score 0 and no position.
  A left row whose selected match cells are all missing or empty strings has the empty
  text.
\<close>

lemma empty_left_text_no_match:
  assumes "input_contract e L R lo ro lm rm cb ue" and "lm \<noteq> []" and "rm \<noteq> []"
  shows "\<exists>res calls ltexts. run_matching e L R lo ro lm rm thr incl pr cb ue = Inr (res, calls)
     \<and> left_text res = Series ltexts
     \<and> length ltexts = length (df_rows L)
     \<and> length (best_scores res) = length (df_rows L)
     \<and> length (best_positions res) = length (df_rows L)
     \<and> (\<forall>i<length (df_rows L).
           ltexts ! i = [] \<longrightarrow> best_scores res ! i = 0 \<and> best_positions res ! i = None)
     \<and> (str_tables_ok e \<longrightarrow>
          (\<forall>i<length (df_rows L).
             (\<forall>c\<in>set lm. (df_rows L ! i) c = Null \<or> (df_rows L ! i) c = Str [])
             \<longrightarrow> ltexts ! i = []))"
proof -
  let ?cx = "run_context e L R lo ro lm rm thr incl pr cb ue"
  let ?lt = "text_values e L lm"
  from run_matching_enabled_fields [OF assms, of thr incl pr] obtain res calls where
    run: "run_matching e L R lo ro lm rm thr incl pr cb ue = Inr (res, calls)"
    and lt: "left_text res = Series ?lt"
    and bs: "best_scores res = map (\<lambda>t. fst (decide ?cx t)) ?lt"
    and bp: "best_positions res = map (\<lambda>t. snd (decide ?cx t)) ?lt"
    and n: "length ?lt = length (df_rows L)"
    by blast
  from assms have it: "set_iter_ok (c_env ?cx)" and lmc: "has_columns L lm"
    by (simp_all add: input_contract_def match_selection_ok_def run_context_fields)
  have "c_exact_index ?cx [] = None"
    by (simp add: run_context_indexes [OF assms(2,3)] build_exact_index_eq)
  with it have d: "decide ?cx [] = (0, None)" by (rule decide_empty_text)
  have 1: "\<forall>i<length (df_rows L).
      ?lt ! i = [] \<longrightarrow> best_scores res ! i = 0 \<and> best_positions res ! i = None"
    using d n by (simp add: bs bp)
  have 2: "str_tables_ok e \<longrightarrow> (\<forall>i<length (df_rows L).
      (\<forall>c\<in>set lm. (df_rows L ! i) c = Null \<or> (df_rows L ! i) c = Str []) \<longrightarrow> ?lt ! i = [])"
  proof (intro allI impI)
    fix i
    assume tb: "str_tables_ok e" and i: "i < length (df_rows L)"
      and blank: "\<forall>c\<in>set lm. (df_rows L ! i) c = Null \<or> (df_rows L ! i) c = Str []"
    show "?lt ! i = []"
      unfolding nth_text_values [OF assms(2) lmc i] using tb blank by (rule blank_cells_text)
  qed
  from run lt 1 2 n show ?thesis
    by (intro exI [of _ res] exI [of _ calls] exI [of _ ?lt]) (simp add: bs bp)
qed

text \<open>
  C3: every left row whose normalised text is empty gets score 0.0 and no position,
  whatever the right dataset holds. The code breaks this for a right dataset without
  rows (a sheet with only its header): \<open>combine_columns\<close>, declared to return a series
  and returning one for an empty selection, gives back a frame there, and
  \<open>run_matching\<close> raises \<open>AttributeError\<close> at \<open>right_text.tolist()\<close>. Here the only left
  row has the empty text, the right frame has the column and no row, and the run
  records nothing.
\<close>

theorem empty_left_text_no_right_rows:
  "df_rows blank_left = [row_of [(''name'', Null)]]
   \<and> df_rows header_only = []
   \<and> combine_columns example_env blank_left [''name''] = Inr (Series [[]])
   \<and> combine_columns example_env header_only [] = Inr (Series [])
   \<and> combine_columns example_env header_only [''name''] = Inr Frame
   \<and> run_matching example_env blank_left header_only [''name''] [''name''] [''name''] [''name'']
        (1 / 2) True False False None = Inl AttributeError"
  by (simp add: run_matching_def combine_columns_def to_dict_records_def has_columns_def
      blank_left_def header_only_def row_of_def example_env_def py_strip_def ascii_lower_def)

text \<open>
  C1, as the specification has it: every left row whose normalised text equals the text of
  some right row has score 1.0, status Matched, and is counted as an exact match. It
  fails when that text is empty: here the only left row and the only right row both
  have the empty text, and the run records score 0, no position, status \<open>No match\<close> and
  no exact match.
\<close>

theorem exact_match_empty_text_counterexample:
  "run_matching example_env blank_left blank_right [''name''] [''name''] [''name''] [''name'']
     (1 / 2) True False False None =
   Inr (\<lparr>result_df = [[(''Left_name'', Cell Null), (''Right_name'', Cell Null),
                        (''Similarity_Score'', Score 0),
                        (''Match_Status'', Cell (Str (lit ''No match'')))]],
         best_scores = [0], best_positions = [None],
         left_text = Series [[]], right_text = Series [[]],
         similarity_enabled = True, similarity_engine = ''difflib'',
         exact_match_count = 0, candidate_comparisons = 0,
         left_match_columns_used = [''name''], right_match_columns_used = [''name'']\<rparr>, [])"
  by code_simp

text \<open>
  C1, amended: in the similarity mode a run under the input contract (so each frame has a
  row) returns, its texts are series, and every left row whose normalised text is not empty and equals the text of some right row has
  score 1 and, for any threshold up to 1, is matched; its position is the smallest
  right position with that text; the row adds one to the exact-match counter and nothing
  to the comparison counter. The exact-match counter of the result is the number of
  such left rows.
\<close>

theorem exact_text_matches_first_position:
  assumes "input_contract e L R lo ro lm rm cb ue" and "lm \<noteq> []" and "rm \<noteq> []"
    and "thr \<le> 1"
  shows "\<exists>res calls ltexts rtexts.
     run_matching e L R lo ro lm rm thr incl pr cb ue = Inr (res, calls)
     \<and> left_text res = Series ltexts \<and> right_text res = Series rtexts
     \<and> exact_match_count res = length (filter (\<lambda>t. t \<noteq> [] \<and> t \<in> set rtexts) ltexts)
     \<and> (\<forall>i<length ltexts.
           ltexts ! i \<noteq> [] \<and> ltexts ! i \<in> set rtexts \<longrightarrow>
           best_scores res ! i = 1
           \<and> (\<exists>j. best_positions res ! i = Some j
                  \<and> j < length rtexts \<and> rtexts ! j = ltexts ! i
                  \<and> (\<forall>k<j. rtexts ! k \<noteq> ltexts ! i)
                  \<and> is_matched thr (best_scores res ! i) (best_positions res ! i)
                  \<and> (\<forall>exact_count comparisons.
                        match_row (run_context e L R lo ro lm rm thr incl pr cb ue)
                          (ltexts ! i) exact_count comparisons
                        = Inr (1, Some j, exact_count + 1, comparisons))))"
proof -
  let ?cx = "run_context e L R lo ro lm rm thr incl pr cb ue"
  let ?lt = "text_values e L lm"
  let ?rt = "text_values e R rm"
  from run_matching_enabled_fields [OF assms(1-3), of thr incl pr] obtain res calls where
    run: "run_matching e L R lo ro lm rm thr incl pr cb ue = Inr (res, calls)"
    and lt: "left_text res = Series ?lt"
    and rt: "right_text res = Series ?rt"
    and bs: "best_scores res = map (\<lambda>t. fst (decide ?cx t)) ?lt"
    and bp: "best_positions res = map (\<lambda>t. snd (decide ?cx t)) ?lt"
    and ec: "exact_match_count res = sum_list (map (row_exact ?cx) ?lt)"
    and ok: "ctx_ok ?cx"
    by blast
  have idx: "c_exact_index ?cx = build_exact_index ?rt"
    by (simp add: run_context_indexes [OF assms(2,3)])
  have cnt: "exact_match_count res = length (filter (\<lambda>t. t \<noteq> [] \<and> t \<in> set ?rt) ?lt)"
    unfolding ec row_exact_indexed [OF idx] by (rule sum_list_indicator)
  have rows: "\<forall>i<length ?lt.
           ?lt ! i \<noteq> [] \<and> ?lt ! i \<in> set ?rt \<longrightarrow>
           best_scores res ! i = 1
           \<and> (\<exists>j. best_positions res ! i = Some j
                  \<and> j < length ?rt \<and> ?rt ! j = ?lt ! i
                  \<and> (\<forall>k<j. ?rt ! k \<noteq> ?lt ! i)
                  \<and> is_matched thr (best_scores res ! i) (best_positions res ! i)
                  \<and> (\<forall>exact_count comparisons.
                        match_row ?cx (?lt ! i) exact_count comparisons
                        = Inr (1, Some j, exact_count + 1, comparisons)))"
  proof (intro allI impI)
    fix i
    assume i: "i < length ?lt"
      and t: "?lt ! i \<noteq> [] \<and> ?lt ! i \<in> set ?rt"
    let ?t = "?lt ! i"
    from t have t1: "?t \<noteq> []" and t2: "?t \<in> set ?rt" by simp_all
    note d = decide_exact [OF idx t1 t2]
    from i have si: "best_scores res ! i = fst (decide ?cx ?t)"
      and pi: "best_positions res ! i = snd (decide ?cx ?t)"
      by (simp_all add: bs bp)
    from d(2) obtain j where j: "snd (decide ?cx ?t) = Some j" "j < length ?rt"
      "?rt ! j = ?t" "\<forall>k<j. ?rt ! k \<noteq> ?t"
      by blast
    have m: "is_matched thr (best_scores res ! i) (best_positions res ! i)"
      using assms(4) by (simp add: is_matched_def si pi d(1) j(1))
    have row: "\<forall>exact_count comparisons.
        match_row ?cx ?t exact_count comparisons = Inr (1, Some j, exact_count + 1, comparisons)"
      by (simp add: match_row_eq [OF ok] d(1) d(3) d(4) j(1))
    from d(1) j m row show "best_scores res ! i = 1
           \<and> (\<exists>j. best_positions res ! i = Some j
                  \<and> j < length ?rt \<and> ?rt ! j = ?t
                  \<and> (\<forall>k<j. ?rt ! k \<noteq> ?t)
                  \<and> is_matched thr (best_scores res ! i) (best_positions res ! i)
                  \<and> (\<forall>exact_count comparisons.
                        match_row ?cx ?t exact_count comparisons
                        = Inr (1, Some j, exact_count + 1, comparisons)))"
      unfolding si pi by blast
  qed
  from run lt rt cnt rows show ?thesis
    by (intro exI [of _ res] exI [of _ calls] exI [of _ ?lt] exI [of _ ?rt] conjI)
qed

theorem exact_text_matches_first_position_witness:
  "input_contract example_env example_left example_right [''id'', ''name''] [''city'']
     [''name''] [''name''] True None
   \<and> [''name''] \<noteq> ([] :: string list) \<and> (3 / 4 :: real) \<le> 1
   \<and> (\<exists>res calls.
        run_matching example_env example_left example_right [''id'', ''name''] [''city'']
          [''name''] [''name''] (3 / 4) True False True None = Inr (res, calls)
        \<and> left_text res = Series [lit ''abc'', [], lit ''john smith'']
        \<and> right_text res = Series [lit ''jon smith'', lit ''abc'']
        \<and> best_scores res ! 0 = 1 \<and> best_positions res ! 0 = Some 1
        \<and> exact_match_count res = 1)"
proof -
  let ?run = "run_matching example_env example_left example_right [''id'', ''name''] [''city'']
          [''name''] [''name''] (3 / 4) True False True None"
  have h: "input_contract example_env example_left example_right [''id'', ''name''] [''city'']
     [''name''] [''name''] True None"
    by (simp add: input_contract_def output_selection_ok_def match_selection_ok_def
        has_columns_def interval_ok_def example_left_def example_right_def set_iter_ok_sorted)
  have ne: "[''name''] \<noteq> ([] :: string list)" and le: "(3 / 4 :: real) \<le> 1" by simp_all
  have ev: "left_text (fst (projr ?run)) = Series [lit ''abc'', [], lit ''john smith'']"
    "right_text (fst (projr ?run)) = Series [lit ''jon smith'', lit ''abc'']"
    by code_simp+
  have texts: "lit ''abc'' \<noteq> []" "lit ''john smith'' \<noteq> []" "lit ''jon smith'' \<noteq> lit ''abc''"
    "lit ''john smith'' \<noteq> lit ''jon smith''" "lit ''john smith'' \<noteq> lit ''abc''"
    by code_simp+
  from exact_text_matches_first_position [OF h ne ne le, of True False]
  obtain res calls ltexts rtexts where
    run: "?run = Inr (res, calls)"
    and l: "left_text res = Series ltexts" and r: "right_text res = Series rtexts"
    and cnt: "exact_match_count res = length (filter (\<lambda>t. t \<noteq> [] \<and> t \<in> set rtexts) ltexts)"
    and row: "\<forall>i<length ltexts.
           ltexts ! i \<noteq> [] \<and> ltexts ! i \<in> set rtexts \<longrightarrow>
           best_scores res ! i = 1
           \<and> (\<exists>j. best_positions res ! i = Some j
                  \<and> j < length rtexts \<and> rtexts ! j = ltexts ! i
                  \<and> (\<forall>k<j. rtexts ! k \<noteq> ltexts ! i)
                  \<and> is_matched (3 / 4) (best_scores res ! i) (best_positions res ! i)
                  \<and> (\<forall>exact_count comparisons.
                        match_row (run_context example_env example_left example_right
                                     [''id'', ''name''] [''city''] [''name''] [''name'']
                                     (3 / 4) True False True None)
                          (ltexts ! i) exact_count comparisons
                        = Inr (1, Some j, exact_count + 1, comparisons)))"
    by (elim exE conjE)
  from run ev l r have lt: "ltexts = [lit ''abc'', [], lit ''john smith'']"
    and rt: "rtexts = [lit ''jon smith'', lit ''abc'']"
    by simp_all
  from row [rule_format, of 0] obtain j where
    s: "best_scores res ! 0 = 1" and j: "best_positions res ! 0 = Some j"
    "j < 2" "[lit ''jon smith'', lit ''abc''] ! j = lit ''abc''"
    by (auto simp: lt rt texts)
  from j(2,3) texts(3) have "j = 1" by (cases j) auto
  with run s j(1) cnt h ne le l r show ?thesis
    by (simp add: lt rt texts)
qed

text \<open>
  C4: in the similarity mode a run under the input contract (so each frame has a row)
  returns with a comparison counter equal to the sum, over exactly the left rows whose text is not a key of the
  exact index, of the number of positions in the union of the posting sets of the row's
  tokens. (The second equation is the same sum written over the list of left texts.)
\<close>

theorem comparisons_count_candidates:
  assumes "input_contract e L R lo ro lm rm cb ue" and "lm \<noteq> []" and "rm \<noteq> []"
  shows "\<exists>res calls ltexts rtexts.
     run_matching e L R lo ro lm rm thr incl pr cb ue = Inr (res, calls)
     \<and> left_text res = Series ltexts \<and> right_text res = Series rtexts
     \<and> candidate_comparisons res =
         (\<Sum>i\<in>{i. i < length ltexts \<and> ltexts ! i \<notin> dom (build_exact_index rtexts)}.
            card (\<Union>token\<in>set (py_split e (ltexts ! i)). build_token_index e rtexts token))
     \<and> candidate_comparisons res =
         sum_list (map (\<lambda>t. if build_exact_index rtexts t \<noteq> None then 0
                            else card (\<Union>token\<in>set (py_split e t).
                                         build_token_index e rtexts token))
                     ltexts)"
proof -
  let ?cx = "run_context e L R lo ro lm rm thr incl pr cb ue"
  let ?lt = "text_values e L lm"
  let ?rt = "text_values e R rm"
  from run_matching_enabled_fields [OF assms, of thr incl pr] obtain res calls where
    run: "run_matching e L R lo ro lm rm thr incl pr cb ue = Inr (res, calls)"
    and lt: "left_text res = Series ?lt"
    and rt: "right_text res = Series ?rt"
    and cc: "candidate_comparisons res = sum_list (map (row_comparisons ?cx) ?lt)"
    by blast
  have idx: "c_exact_index ?cx = build_exact_index ?rt"
    "c_token_index ?cx = build_token_index e ?rt" "c_env ?cx = e"
    by (simp_all add: run_context_indexes [OF assms(2,3)] run_context_fields)
  let ?g = "\<lambda>t. card (\<Union>token\<in>set (py_split e t). build_token_index e ?rt token)"
  have 2: "candidate_comparisons res =
      sum_list (map (\<lambda>t. if build_exact_index ?rt t \<noteq> None then 0 else ?g t) ?lt)"
    unfolding cc row_comparisons_indexed [OF idx] ..
  have 1: "candidate_comparisons res =
      (\<Sum>i\<in>{i. i < length ?lt \<and> ?lt ! i \<notin> dom (build_exact_index ?rt)}. ?g (?lt ! i))"
    unfolding 2 sum_list_skip by (simp add: dom_def)
  from run lt rt 1 2 show ?thesis
    by (intro exI [of _ res] exI [of _ calls] exI [of _ ?lt] exI [of _ ?rt] conjI)
qed

theorem comparisons_count_candidates_witness:
  "input_contract example_env example_left example_right [''id'', ''name''] [''city'']
     [''name''] [''name''] True None
   \<and> [''name''] \<noteq> ([] :: string list)
   \<and> (\<exists>res calls.
        run_matching example_env example_left example_right [''id'', ''name''] [''city'']
          [''name''] [''name''] (3 / 4) True False True None = Inr (res, calls)
        \<and> left_text res = Series [lit ''abc'', [], lit ''john smith'']
        \<and> right_text res = Series [lit ''jon smith'', lit ''abc'']
        \<and> candidate_comparisons res = 1)"
proof -
  let ?run = "run_matching example_env example_left example_right [''id'', ''name''] [''city'']
          [''name''] [''name''] (3 / 4) True False True None"
  have h: "input_contract example_env example_left example_right [''id'', ''name''] [''city'']
     [''name''] [''name''] True None"
    by (simp add: input_contract_def output_selection_ok_def match_selection_ok_def
        has_columns_def interval_ok_def example_left_def example_right_def set_iter_ok_sorted)
  have ne: "[''name''] \<noteq> ([] :: string list)" by simp
  have ev: "left_text (fst (projr ?run)) = Series [lit ''abc'', [], lit ''john smith'']"
    "right_text (fst (projr ?run)) = Series [lit ''jon smith'', lit ''abc'']"
    by code_simp+
  have val: "sum_list (map (\<lambda>t. if build_exact_index [lit ''jon smith'', lit ''abc''] t \<noteq> None then 0
                            else card (\<Union>token\<in>set (py_split example_env t).
                                         build_token_index example_env
                                           [lit ''jon smith'', lit ''abc''] token))
                     [lit ''abc'', [], lit ''john smith'']) = 1"
    by code_simp
  from comparisons_count_candidates [OF h ne ne, of "3 / 4" True False]
  obtain res calls ltexts rtexts where
    run: "?run = Inr (res, calls)"
    and l: "left_text res = Series ltexts" and r: "right_text res = Series rtexts"
    and cc: "candidate_comparisons res =
         sum_list (map (\<lambda>t. if build_exact_index rtexts t \<noteq> None then 0
                            else card (\<Union>token\<in>set (py_split example_env t).
                                         build_token_index example_env rtexts token))
                     ltexts)"
    by blast
  from run ev l r have lt: "ltexts = [lit ''abc'', [], lit ''john smith'']"
    and rt: "rtexts = [lit ''jon smith'', lit ''abc'']"
    by simp_all
  from cc val have "candidate_comparisons res = 1"
    unfolding lt rt by (simp only:)
  with run l r h ne show ?thesis unfolding lt rt by blast
qed

text \<open>
  C9: in the similarity mode a run under the input contract (so each frame has a row)
  returns (no lookup raised IndexError), with one entry of \<open>best_positions\<close> per left row, and every entry that is
  a position is below the number of right rows, which is also the number of right texts
  and of right output records.
\<close>

theorem best_positions_in_bounds:
  assumes "input_contract e L R lo ro lm rm cb ue" and "lm \<noteq> []" and "rm \<noteq> []"
  shows "\<exists>res calls. run_matching e L R lo ro lm rm thr incl pr cb ue = Inr (res, calls)
     \<and> length (best_positions res) = length (df_rows L)
     \<and> (\<exists>rtexts. right_text res = Series rtexts \<and> length rtexts = length (df_rows R))
     \<and> (\<forall>p\<in>set (best_positions res). \<forall>j. p = Some j \<longrightarrow> j < length (df_rows R))"
proof -
  let ?cx = "run_context e L R lo ro lm rm thr incl pr cb ue"
  from run_matching_enabled_fields [OF assms, of thr incl pr] obtain res calls where
    run: "run_matching e L R lo ro lm rm thr incl pr cb ue = Inr (res, calls)"
    and rt: "right_text res = Series (text_values e R rm)"
    and bp: "best_positions res = map (\<lambda>t. snd (decide ?cx t)) (text_values e L lm)"
    and n: "length (text_values e L lm) = length (df_rows L)"
    and m: "length (text_values e R rm) = length (df_rows R)"
    and ok: "ctx_ok ?cx"
    by blast
  have len: "length (c_right_text_values ?cx) = length (df_rows R)"
    by (simp add: run_context_indexes [OF assms(2,3)] m)
  have "\<forall>p\<in>set (best_positions res). \<forall>j. p = Some j \<longrightarrow> j < length (df_rows R)"
  proof (intro ballI allI impI)
    fix p j
    assume "p \<in> set (best_positions res)" and "p = Some j"
    then obtain t where "snd (decide ?cx t) = Some j"
      unfolding bp by auto
    with ok have "j < length (c_right_text_values ?cx)" by (rule decide_pos_valid)
    then show "j < length (df_rows R)" by (simp only: len)
  qed
  with run n m show ?thesis
    by (intro exI [of _ res] exI [of _ calls]) (simp add: bp rt)
qed

theorem best_positions_in_bounds_witness:
  "input_contract example_env example_left example_right [''id'', ''name''] [''city'']
     [''name''] [''name''] True None
   \<and> [''name''] \<noteq> ([] :: string list)
   \<and> (\<exists>res calls.
        run_matching example_env example_left example_right [''id'', ''name''] [''city'']
          [''name''] [''name''] (3 / 4) True False True None = Inr (res, calls)
        \<and> best_positions res = [Some 1, None, Some 0]
        \<and> (\<forall>p\<in>set (best_positions res). \<forall>j. p = Some j \<longrightarrow> j < 2))"
proof -
  let ?run = "run_matching example_env example_left example_right [''id'', ''name''] [''city'']
          [''name''] [''name''] (3 / 4) True False True None"
  have h: "input_contract example_env example_left example_right [''id'', ''name''] [''city'']
     [''name''] [''name''] True None"
    by (simp add: input_contract_def output_selection_ok_def match_selection_ok_def
        has_columns_def interval_ok_def example_left_def example_right_def set_iter_ok_sorted)
  have ne: "[''name''] \<noteq> ([] :: string list)" by simp
  have ev: "best_positions (fst (projr ?run)) = [Some 1, None, Some 0]"
    by code_simp
  have m: "length (df_rows example_right) = 2"
    by (simp add: example_right_def)
  from best_positions_in_bounds [OF h ne ne, of "3 / 4" True False] obtain res calls where
    run: "?run = Inr (res, calls)"
    and b: "\<forall>p\<in>set (best_positions res). \<forall>j. p = Some j \<longrightarrow> j < length (df_rows example_right)"
    by blast
  from run ev have "best_positions res = [Some 1, None, Some 0]" by simp
  with run b h ne show ?thesis unfolding m by blast
qed

subsection \<open>The rows of the positional merge\<close>

text \<open>
  C5: when either match-column selection is empty, the result of \<open>run_matching\<close> does not
  depend on the threshold or on the preference for rapidfuzz (whether it returns or
  raises); and under the input contract it returns the positional merge: going through
  the left rows in order, row \<open>i\<close> is emitted exactly when a right row exists at \<open>i\<close> or
  unmatched rows are included; the emitted row carries the selected left columns under
  \<open>Left_\<close>, the selected right columns under \<open>Right_\<close> (from the right row at \<open>i\<close> when it
  exists, null otherwise) and nothing else, so neither \<open>Similarity_Score\<close> nor
  \<open>Match_Status\<close>.
\<close>

theorem disabled_is_positional_merge:
  assumes "lm = [] \<or> rm = []"
  shows "(\<forall>thr' pr'. run_matching e L R lo ro lm rm thr' incl pr' cb ue
                      = run_matching e L R lo ro lm rm thr incl pr cb ue)
     \<and> (output_selection_ok L R lo ro \<and> interval_ok cb ue \<longrightarrow>
          (\<exists>res calls row_at.
             run_matching e L R lo ro lm rm thr incl pr cb ue = Inr (res, calls)
             \<and> result_df res =
                 concat (map (\<lambda>i. if i < length (df_rows R) \<or> incl then [row_at i] else [])
                           [0..<length (df_rows L)])
             \<and> (\<forall>i<length (df_rows L).
                   carries_columns lo (df_rows L ! i) ro
                     (if i < length (df_rows R) then Some (df_rows R ! i) else None) {} (row_at i)
                   \<and> map_of (row_at i) ''Similarity_Score'' = None
                   \<and> map_of (row_at i) ''Match_Status'' = None)))"
proof (rule conjI)
  show "\<forall>thr' pr'. run_matching e L R lo ro lm rm thr' incl pr' cb ue
                      = run_matching e L R lo ro lm rm thr incl pr cb ue"
    using run_matching_disabled_inert [OF assms] by blast
next
  show "output_selection_ok L R lo ro \<and> interval_ok cb ue \<longrightarrow>
          (\<exists>res calls row_at.
             run_matching e L R lo ro lm rm thr incl pr cb ue = Inr (res, calls)
             \<and> result_df res =
                 concat (map (\<lambda>i. if i < length (df_rows R) \<or> incl then [row_at i] else [])
                           [0..<length (df_rows L)])
             \<and> (\<forall>i<length (df_rows L).
                   carries_columns lo (df_rows L ! i) ro
                     (if i < length (df_rows R) then Some (df_rows R ! i) else None) {} (row_at i)
                   \<and> map_of (row_at i) ''Similarity_Score'' = None
                   \<and> map_of (row_at i) ''Match_Status'' = None))"
  proof (rule impI)
    assume c: "output_selection_ok L R lo ro \<and> interval_ok cb ue"
    then have out: "output_selection_ok L R lo ro" and iv: "interval_ok cb ue" by simp_all
    from assms have dis: "\<not> (lm \<noteq> [] \<and> rm \<noteq> [])" by auto
    let ?cx = "run_context e L R lo ro lm rm thr incl pr cb ue"
    let ?row_at = "\<lambda>i. right_fields ?cx (i < length (df_rows R)) i
                          (add_prefixed ''Left_'' (output_records L lo ! i) [])"
    note rows = positional_rows [OF out, of e lm rm thr incl pr cb ue]
    from run_matching_disabled_eq [OF dis out iv, of e thr incl pr] obtain res calls where
      run: "run_matching e L R lo ro lm rm thr incl pr cb ue = Inr (res, calls)"
      and df: "result_df res = concat (map (merged ?cx) [0..<length (df_rows L)])"
      by simp
    have 1: "result_df res =
        concat (map (\<lambda>i. if i < length (df_rows R) \<or> incl then [?row_at i] else [])
                  [0..<length (df_rows L)])"
      unfolding df rows(1) ..
    have 2: "\<forall>i<length (df_rows L).
        carries_columns lo (df_rows L ! i) ro
          (if i < length (df_rows R) then Some (df_rows R ! i) else None) {} (?row_at i)
        \<and> map_of (?row_at i) ''Similarity_Score'' = None
        \<and> map_of (?row_at i) ''Match_Status'' = None"
      using rows(2) carries_columns_no_score by blast
    from run 1 2 show "\<exists>res calls row_at.
             run_matching e L R lo ro lm rm thr incl pr cb ue = Inr (res, calls)
             \<and> result_df res =
                 concat (map (\<lambda>i. if i < length (df_rows R) \<or> incl then [row_at i] else [])
                           [0..<length (df_rows L)])
             \<and> (\<forall>i<length (df_rows L).
                   carries_columns lo (df_rows L ! i) ro
                     (if i < length (df_rows R) then Some (df_rows R ! i) else None) {} (row_at i)
                   \<and> map_of (row_at i) ''Similarity_Score'' = None
                   \<and> map_of (row_at i) ''Match_Status'' = None)"
      by (intro exI [of _ res] exI [of _ calls] exI [of _ ?row_at] conjI)
  qed
qed

theorem disabled_is_positional_merge_witness:
  "(([] :: string list) = [] \<or> ([] :: string list) = [])
   \<and> output_selection_ok example_left example_right [''id''] [''city'']
   \<and> interval_ok False None
   \<and> run_matching example_env example_left example_right [''id''] [''city''] [] []
         (1 / 4) True False False None
       = run_matching example_env example_left example_right [''id''] [''city''] [] []
           (3 / 4) True True False None
   \<and> (\<exists>res calls.
        run_matching example_env example_left example_right [''id''] [''city''] [] []
          (3 / 4) True True False None = Inr (res, calls)
        \<and> length (result_df res) = 3
        \<and> map_of (result_df res ! 0) ''Left_id'' = Some (Cell (Other (lit ''1'')))
        \<and> map_of (result_df res ! 0) ''Right_city'' = Some (Cell (Str (lit ''Leeds'')))
        \<and> map_of (result_df res ! 2) ''Right_city'' = Some (Cell Null)
        \<and> map_of (result_df res ! 2) ''Similarity_Score'' = None)"
proof -
  let ?run = "run_matching example_env example_left example_right [''id''] [''city''] [] []
          (3 / 4) True True False None"
  have h: "([] :: string list) = [] \<or> ([] :: string list) = []" by simp
  have c: "output_selection_ok example_left example_right [''id''] [''city'']
      \<and> interval_ok False None"
    by (simp add: output_selection_ok_def has_columns_def example_left_def example_right_def
        interval_ok_def)
  have n: "length (df_rows example_left) = 3" and m: "length (df_rows example_right) = 2"
    by (simp_all add: example_left_def example_right_def)
  have upt3: "[0..<3] = [0, 1, 2]" by code_simp
  note inst = disabled_is_positional_merge [OF h, of example_env example_left example_right
      "[''id'']" "[''city'']" True False None "3 / 4" True]
  from inst have inert: "run_matching example_env example_left example_right [''id''] [''city'']
      [] [] (1 / 4) True False False None = ?run"
    by blast
  from inst c obtain res calls row_at where
    run: "?run = Inr (res, calls)"
    and df: "result_df res =
        concat (map (\<lambda>i. if i < length (df_rows example_right) \<or> True then [row_at i] else [])
                  [0..<length (df_rows example_left)])"
    and rows: "\<forall>i<length (df_rows example_left).
        carries_columns [''id''] (df_rows example_left ! i) [''city'']
          (if i < length (df_rows example_right) then Some (df_rows example_right ! i) else None)
          {} (row_at i)
        \<and> map_of (row_at i) ''Similarity_Score'' = None
        \<and> map_of (row_at i) ''Match_Status'' = None"
    by blast
  from df have list: "result_df res = [row_at 0, row_at 1, row_at 2]"
    by (simp add: n m upt3)
  from rows [rule_format, of 0]
  have r0: "carries_columns [''id''] (df_rows example_left ! 0) [''city'']
      (Some (df_rows example_right ! 0)) {} (row_at 0)"
    by (simp add: n m)
  from rows [rule_format, of 2]
  have r2: "carries_columns [''id''] (df_rows example_left ! 2) [''city''] None {} (row_at 2)"
    and s2: "map_of (row_at 2) ''Similarity_Score'' = None"
    by (simp_all add: n m)
  from r0 have a: "map_of (row_at 0) ''Left_id'' = Some (Cell (Other (lit ''1'')))"
    and b: "map_of (row_at 0) ''Right_city'' = Some (Cell (Str (lit ''Leeds'')))"
    by (simp_all add: carries_columns_def example_left_def example_right_def row_of_def)
  from r2 have d: "map_of (row_at 2) ''Right_city'' = Some (Cell Null)"
    by (simp add: carries_columns_def)
  from h c inert run a b d s2 show ?thesis
    by (simp add: list)
qed

subsection \<open>The rows of the similarity mode\<close>



end
